theory Spec2Isabelle
  imports Main "HOL-Library.AList"
begin

section \<open>Values on the wire\<close>

text \<open>
  The bridge client of \<^verbatim>\<open>pylutron_caseta/smartbridge.py\<close> exchanges JSON objects, one per
  line, with the hub.  The Python values it handles are the ones \<^verbatim>\<open>json.loads\<close> builds:
  \<^verbatim>\<open>None\<close>, booleans, integers, strings, lists and dictionaries with string keys.  A
  dictionary is an association list in insertion order; Python never holds a key twice, so a
  dictionary the program can hold has distinct keys.

  A \<^typ>\<open>char\<close> stands for the code point of the same number, so the strings of the model are
  the Python strings whose code points are below 256.  Floating-point numbers are left out.
\<close>

datatype json =
    JNull
  | JBool bool
  | JInt int
  | JStr string
  | JArr "json list"
  | JObj "(string \<times> json) list"

datatype error =
    KeyError
  | TypeError
  | AttributeError
  | IndexError
  | ValueError
  | OSError
  | ConnectionResetError
  | Pending

text \<open>
  \<open>Pending\<close> is not a Python exception: it marks an awaited read that never completes,
  because nothing is buffered and the peer has not closed the stream.  No \<^verbatim>\<open>except\<close> clause
  of the source catches it.
\<close>

subsection \<open>Python's dynamic operations on decoded values\<close>

text \<open>\<^verbatim>\<open>x[key]\<close> for a string key: only a dictionary can answer.\<close>

fun getitem :: "json \<Rightarrow> string \<Rightarrow> error + json" where
  "getitem (JObj kvs) k = (case map_of kvs k of None \<Rightarrow> Inl KeyError | Some v \<Rightarrow> Inr v)"
| "getitem JNull k = Inl TypeError"
| "getitem (JBool b) k = Inl TypeError"
| "getitem (JInt i) k = Inl TypeError"
| "getitem (JStr s) k = Inl TypeError"
| "getitem (JArr xs) k = Inl TypeError"

text \<open>\<^verbatim>\<open>x[0]\<close>: the first element of a list or string; a decoded dictionary has no key 0.\<close>

fun getitem0 :: "json \<Rightarrow> error + json" where
  "getitem0 (JArr xs) = (case xs of [] \<Rightarrow> Inl IndexError | x # _ \<Rightarrow> Inr x)"
| "getitem0 (JStr s) = (case s of [] \<Rightarrow> Inl IndexError | c # _ \<Rightarrow> Inr (JStr [c]))"
| "getitem0 (JObj kvs) = Inl KeyError"
| "getitem0 JNull = Inl TypeError"
| "getitem0 (JBool b) = Inl TypeError"
| "getitem0 (JInt i) = Inl TypeError"

text \<open>\<^verbatim>\<open>for x in v\<close>: the elements of a list, the keys of a dictionary, the characters of a
  string.\<close>

fun py_iter :: "json \<Rightarrow> error + json list" where
  "py_iter (JArr xs) = Inr xs"
| "py_iter (JObj kvs) = Inr (map (\<lambda>kv. JStr (fst kv)) kvs)"
| "py_iter (JStr s) = Inr (map (\<lambda>c. JStr [c]) s)"
| "py_iter JNull = Inl TypeError"
| "py_iter (JBool b) = Inl TypeError"
| "py_iter (JInt i) = Inl TypeError"

text \<open>The truth value of \<^verbatim>\<open>if v:\<close>.\<close>

fun truthy :: "json \<Rightarrow> bool" where
  "truthy JNull = False"
| "truthy (JBool b) = b"
| "truthy (JInt i) = (i \<noteq> 0)"
| "truthy (JStr s) = (s \<noteq> [])"
| "truthy (JArr xs) = (xs \<noteq> [])"
| "truthy (JObj kvs) = (kvs \<noteq> [])"

text \<open>\<^verbatim>\<open>v > 0\<close>: defined on numbers (a boolean is the integer 0 or 1), a \<^verbatim>\<open>TypeError\<close>
  otherwise.\<close>

fun gt_zero :: "json \<Rightarrow> error + bool" where
  "gt_zero (JInt i) = Inr (0 < i)"
| "gt_zero (JBool b) = Inr b"
| "gt_zero JNull = Inl TypeError"
| "gt_zero (JStr s) = Inl TypeError"
| "gt_zero (JArr xs) = Inl TypeError"
| "gt_zero (JObj kvs) = Inl TypeError"

text \<open>\<^verbatim>\<open>s.rfind(c)\<close>: the highest index of \<open>c\<close> in \<open>s\<close>, or \<open>-1\<close>.\<close>

fun rfind :: "string \<Rightarrow> char \<Rightarrow> int" where
  "rfind [] c = - 1"
| "rfind (x # xs) c =
     (let r = rfind xs c in if r \<noteq> - 1 then r + 1 else if x = c then 0 else - 1)"

text \<open>\<^verbatim>\<open>s[s.rfind('/') + 1:]\<close>, the source's way to take an id from a resource path.\<close>

definition last_segment :: "string \<Rightarrow> string" where
  "last_segment s = drop (nat (rfind s CHR ''/'' + 1)) s"

text \<open>The same expression on a decoded value: only a string has \<^verbatim>\<open>rfind\<close>.\<close>

fun href_id :: "json \<Rightarrow> error + string" where
  "href_id (JStr s) = Inr (last_segment s)"
| "href_id JNull = Inl AttributeError"
| "href_id (JBool b) = Inl AttributeError"
| "href_id (JInt i) = Inl AttributeError"
| "href_id (JArr xs) = Inl AttributeError"
| "href_id (JObj kvs) = Inl AttributeError"

section \<open>The codec: \<^verbatim>\<open>json.dumps\<close> and \<^verbatim>\<open>json.loads\<close>\<close>

text \<open>
  \<^verbatim>\<open>_write_object\<close> and \<^verbatim>\<open>_read_object\<close> call Python's standard \<^verbatim>\<open>json\<close> module, which is
  not part of the repository.  The two functions are modelled here after the module's
  documented behaviour with its default options: \<^verbatim>\<open>ensure_ascii=True\<close>, the separators
  \<^verbatim>\<open>", "\<close> and \<^verbatim>\<open>": "\<close>, strict string scanning.
\<close>

subsection \<open>Encoding\<close>

definition hexdigit :: "nat \<Rightarrow> char" where
  "hexdigit d = (if d < 10 then char_of (48 + d) else char_of (87 + d))"

text \<open>One character of a string literal: the short escapes, then the printable ASCII range
  as it is, and \<^verbatim>\<open>\uXXXX\<close> with lower-case digits for everything else.\<close>

definition escape_char :: "char \<Rightarrow> string" where
  "escape_char c =
     (let n = (of_char c :: nat) in
      if c = CHR 0x22 then [CHR 0x5C, CHR 0x22]
      else if c = CHR 0x5C then [CHR 0x5C, CHR 0x5C]
      else if c = CHR 0x0A then [CHR 0x5C, CHR ''n'']
      else if c = CHR 0x0D then [CHR 0x5C, CHR ''r'']
      else if c = CHR 0x09 then [CHR 0x5C, CHR ''t'']
      else if c = CHR 0x08 then [CHR 0x5C, CHR ''b'']
      else if c = CHR 0x0C then [CHR 0x5C, CHR ''f'']
      else if 32 \<le> n \<and> n \<le> 126 then [c]
      else [CHR 0x5C, CHR ''u'', hexdigit (n div 4096 mod 16), hexdigit (n div 256 mod 16),
            hexdigit (n div 16 mod 16), hexdigit (n mod 16)])"

definition encode_basestring_ascii :: "string \<Rightarrow> string" where
  "encode_basestring_ascii s = CHR 0x22 # concat (map escape_char s) @ [CHR 0x22]"

text \<open>The decimal digits of a natural number, most significant first.\<close>

function decimal :: "nat \<Rightarrow> string" where
  "decimal n = (if n < 10 then [char_of (48 + n)] else decimal (n div 10) @ [char_of (48 + n mod 10)])"
  by pat_completeness auto
termination
  by (relation "measure id") auto

declare decimal.simps [simp del]

definition int_repr :: "int \<Rightarrow> string" where
  "int_repr i = (if i < 0 then CHR ''-'' # decimal (nat (- i)) else decimal (nat i))"

fun json_dumps :: "json \<Rightarrow> string"
  and dumps_list :: "json list \<Rightarrow> string"
  and dumps_dict :: "(string \<times> json) list \<Rightarrow> string" where
  "json_dumps JNull = ''null''"
| "json_dumps (JBool b) = (if b then ''true'' else ''false'')"
| "json_dumps (JInt i) = int_repr i"
| "json_dumps (JStr s) = encode_basestring_ascii s"
| "json_dumps (JArr xs) = ''['' @ dumps_list xs @ '']''"
| "json_dumps (JObj kvs) = ''{'' @ dumps_dict kvs @ ''}''"
| "dumps_list [] = []"
| "dumps_list (x # xs) = json_dumps x @ (if xs = [] then [] else '', '' @ dumps_list xs)"
| "dumps_dict [] = []"
| "dumps_dict ((k, v) # kvs) =
     encode_basestring_ascii k @ '': '' @ json_dumps v
       @ (if kvs = [] then [] else '', '' @ dumps_dict kvs)"

subsection \<open>Decoding\<close>

definition is_ws :: "char \<Rightarrow> bool" where
  "is_ws c \<longleftrightarrow> c = CHR '' '' \<or> c = CHR 0x09 \<or> c = CHR 0x0A \<or> c = CHR 0x0D"

definition skip_ws :: "string \<Rightarrow> string" where
  "skip_ws cs = dropWhile is_ws cs"

definition is_digit :: "char \<Rightarrow> bool" where
  "is_digit c \<longleftrightarrow> 48 \<le> (of_char c :: nat) \<and> (of_char c :: nat) \<le> 57"

definition hexval :: "char \<Rightarrow> nat option" where
  "hexval c =
     (let n = (of_char c :: nat) in
      if 48 \<le> n \<and> n \<le> 57 then Some (n - 48)
      else if 97 \<le> n \<and> n \<le> 102 then Some (n - 87)
      else if 65 \<le> n \<and> n \<le> 70 then Some (n - 55)
      else None)"

text \<open>The character a backslash escape stands for (\<^verbatim>\<open>\u\<close> is handled apart).\<close>

definition unescape :: "char \<Rightarrow> char option" where
  "unescape e =
     (if e = CHR 0x22 then Some (CHR 0x22)
      else if e = CHR 0x5C then Some (CHR 0x5C)
      else if e = CHR ''/'' then Some (CHR ''/'')
      else if e = CHR ''b'' then Some (CHR 0x08)
      else if e = CHR ''f'' then Some (CHR 0x0C)
      else if e = CHR ''n'' then Some (CHR 0x0A)
      else if e = CHR ''r'' then Some (CHR 0x0D)
      else if e = CHR ''t'' then Some (CHR 0x09)
      else None)"

definition hex4 :: "char \<Rightarrow> char \<Rightarrow> char \<Rightarrow> char \<Rightarrow> nat option" where
  "hex4 h1 h2 h3 h4 =
     (case hexval h1 of None \<Rightarrow> None | Some a \<Rightarrow>
      case hexval h2 of None \<Rightarrow> None | Some b \<Rightarrow>
      case hexval h3 of None \<Rightarrow> None | Some c \<Rightarrow>
      case hexval h4 of None \<Rightarrow> None | Some d \<Rightarrow> Some (4096 * a + 256 * b + 16 * c + d))"

definition cons_result :: "char \<Rightarrow> (string \<times> string) option \<Rightarrow> (string \<times> string) option" where
  "cons_result c r = (case r of None \<Rightarrow> None | Some (s, rest) \<Rightarrow> Some (c # s, rest))"

text \<open>The body of a string literal, read from just after the opening quote up to the
  closing one.  A raw control character is refused; an escaped code point above 255 is
  outside the strings of the model and refused as well.\<close>

fun scanstring :: "string \<Rightarrow> (string \<times> string) option" where
  "scanstring [] = None"
| "scanstring (c # cs) =
     (if c = CHR 0x22 then Some ([], cs)
      else if c = CHR 0x5C then
        (case cs of
           [] \<Rightarrow> None
         | e # es \<Rightarrow>
             if e = CHR ''u'' then
               (case es of
                  h1 # h2 # h3 # h4 # rest \<Rightarrow>
                    (case hex4 h1 h2 h3 h4 of
                       None \<Rightarrow> None
                     | Some n \<Rightarrow> if n < 256 then cons_result (char_of n) (scanstring rest) else None)
                | _ \<Rightarrow> None)
             else
               (case unescape e of
                  None \<Rightarrow> None
                | Some ch \<Rightarrow> cons_result ch (scanstring es)))
      else if (of_char c :: nat) < 32 then None
      else cons_result c (scanstring cs))"

definition int_of_digits :: "string \<Rightarrow> nat" where
  "int_of_digits ds = foldl (\<lambda>a c. 10 * a + (of_char c - 48)) 0 ds"

text \<open>Whether a fraction or an exponent follows the integer part: the number is then a
  float.\<close>

definition float_tail :: "string \<Rightarrow> bool" where
  "float_tail cs =
     (case cs of
        [] \<Rightarrow> False
      | c # r \<Rightarrow>
          if c = CHR ''.'' then (case r of [] \<Rightarrow> False | d # _ \<Rightarrow> is_digit d)
          else if c = CHR ''e'' \<or> c = CHR ''E'' then
            (case r of
               [] \<Rightarrow> False
             | s # r' \<Rightarrow>
                 if s = CHR ''+'' \<or> s = CHR ''-'' then (case r' of [] \<Rightarrow> False | d # _ \<Rightarrow> is_digit d)
                 else is_digit s)
          else False)"

text \<open>The number pattern \<^verbatim>\<open>(-?(?:0|[1-9]\d*))(\.\d+)?([eE][-+]?\d+)?\<close>: an optional sign, then a
  single 0 or a run of digits that does not start with 0.  A float is outside the model.\<close>

definition match_number :: "string \<Rightarrow> (json \<times> string) option" where
  "match_number cs =
     (let neg = (case cs of [] \<Rightarrow> False | c # _ \<Rightarrow> c = CHR ''-'');
          cs1 = (if neg then tl cs else cs);
          ds = takeWhile is_digit cs1;
          rest = dropWhile is_digit cs1
      in if ds = [] then None
         else
           let ip = (if hd ds = CHR ''0'' then [CHR ''0''] else ds);
               rest' = (if hd ds = CHR ''0'' then tl ds @ rest else rest)
           in if float_tail rest' then None
              else Some (JInt (if neg then - int (int_of_digits ip) else int (int_of_digits ip)), rest'))"

text \<open>\<^verbatim>\<open>dict(pairs)\<close>: a repeated key keeps its first position and its last value.\<close>

definition dict :: "(string \<times> json) list \<Rightarrow> (string \<times> json) list" where
  "dict pairs = foldl (\<lambda>d kv. AList.update (fst kv) (snd kv) d) [] pairs"

text \<open>
  The recursive descent of the decoder.  \<open>scan_once\<close> reads one value, \<open>JSONArray\<close> the
  elements of a non-empty array from its first element on, \<open>JSONObject\<close> the members of a
  non-empty object from just after the opening quote of its first key.  The first argument
  bounds the nesting of calls; \<open>json_loads\<close> starts with a bound that no input exhausts
  (\<open>json_loads_fuel\<close> below): a larger bound gives the same result.
\<close>

fun scan_once :: "nat \<Rightarrow> string \<Rightarrow> (json \<times> string) option"
  and JSONArray :: "nat \<Rightarrow> string \<Rightarrow> (json list \<times> string) option"
  and JSONObject :: "nat \<Rightarrow> string \<Rightarrow> ((string \<times> json) list \<times> string) option" where
  "scan_once 0 cs = None"
| "scan_once (Suc n) cs =
     (case cs of
        [] \<Rightarrow> None
      | c # r \<Rightarrow>
          if c = CHR 0x22 then
            (case scanstring r of None \<Rightarrow> None | Some (s, rest) \<Rightarrow> Some (JStr s, rest))
          else if c = CHR ''{'' then
            (case skip_ws r of
               [] \<Rightarrow> None
             | d # r' \<Rightarrow>
                 if d = CHR ''}'' then Some (JObj [], r')
                 else if d = CHR 0x22 then
                   (case JSONObject n r' of
                      None \<Rightarrow> None
                    | Some (pairs, rest) \<Rightarrow> Some (JObj (dict pairs), rest))
                 else None)
          else if c = CHR ''['' then
            (case skip_ws r of
               [] \<Rightarrow> None
             | d # r' \<Rightarrow>
                 if d = CHR '']'' then Some (JArr [], r')
                 else
                   (case JSONArray n (d # r') of
                      None \<Rightarrow> None
                    | Some (values, rest) \<Rightarrow> Some (JArr values, rest)))
          else if take 4 cs = ''null'' then Some (JNull, drop 4 cs)
          else if take 4 cs = ''true'' then Some (JBool True, drop 4 cs)
          else if take 5 cs = ''false'' then Some (JBool False, drop 5 cs)
          else match_number cs)"
| "JSONArray 0 cs = None"
| "JSONArray (Suc n) cs =
     (case scan_once n cs of
        None \<Rightarrow> None
      | Some (v, r) \<Rightarrow>
          (case skip_ws r of
             [] \<Rightarrow> None
           | d # r' \<Rightarrow>
               if d = CHR '']'' then Some ([v], r')
               else if d = CHR '','' then
                 (case JSONArray n (skip_ws r') of
                    None \<Rightarrow> None
                  | Some (vs, rest) \<Rightarrow> Some (v # vs, rest))
               else None))"
| "JSONObject 0 cs = None"
| "JSONObject (Suc n) cs =
     (case scanstring cs of
        None \<Rightarrow> None
      | Some (k, r) \<Rightarrow>
          (case skip_ws r of
             [] \<Rightarrow> None
           | d # r1 \<Rightarrow>
               if d \<noteq> CHR '':'' then None
               else
                 (case scan_once n (skip_ws r1) of
                    None \<Rightarrow> None
                  | Some (v, r2) \<Rightarrow>
                      (case skip_ws r2 of
                         [] \<Rightarrow> None
                       | e # r3 \<Rightarrow>
                           if e = CHR ''}'' then Some ([(k, v)], r3)
                           else if e = CHR '','' then
                             (case skip_ws r3 of
                                [] \<Rightarrow> None
                              | q # r4 \<Rightarrow>
                                  if q = CHR 0x22 then
                                    (case JSONObject n r4 of
                                       None \<Rightarrow> None
                                     | Some (kvs, rest) \<Rightarrow> Some ((k, v) # kvs, rest))
                                  else None)
                           else None))))"

text \<open>\<^verbatim>\<open>json.loads\<close>: one value between optional white space, and nothing after it.  \<open>None\<close>
  is the \<^verbatim>\<open>ValueError\<close> of the module.  The decoding of the received bytes as UTF-8 is not
  modelled: a byte above 127 stands for the code point of its number.\<close>

definition json_loads :: "string \<Rightarrow> json option" where
  "json_loads s =
     (case scan_once (Suc (2 * length s)) (skip_ws s) of
        None \<Rightarrow> None
      | Some (v, r) \<Rightarrow> if skip_ws r = [] then Some v else None)"

subsection \<open>Well-formed values and number boundaries\<close>

text \<open>A value as Python can hold it: no dictionary in it has a key twice.\<close>

fun distinct_keys :: "json \<Rightarrow> bool"
  and distinct_keys_list :: "json list \<Rightarrow> bool"
  and distinct_keys_dict :: "(string \<times> json) list \<Rightarrow> bool" where
  "distinct_keys JNull = True"
| "distinct_keys (JBool b) = True"
| "distinct_keys (JInt i) = True"
| "distinct_keys (JStr s) = True"
| "distinct_keys (JArr xs) = distinct_keys_list xs"
| "distinct_keys (JObj kvs) = (distinct (map fst kvs) \<and> distinct_keys_dict kvs)"
| "distinct_keys_list [] = True"
| "distinct_keys_list (x # xs) = (distinct_keys x \<and> distinct_keys_list xs)"
| "distinct_keys_dict [] = True"
| "distinct_keys_dict ((k, v) # kvs) = (distinct_keys v \<and> distinct_keys_dict kvs)"

text \<open>The printable characters of ASCII, from the space to the tilde.\<close>

definition printable :: "char \<Rightarrow> bool" where
  "printable c \<longleftrightarrow> 32 \<le> (of_char c :: nat) \<and> (of_char c :: nat) \<le> 126"

text \<open>The text after a number does not continue it: no digit, fraction or exponent
  follows.\<close>

definition number_end :: "string \<Rightarrow> bool" where
  "number_end rest \<longleftrightarrow>
     (case rest of [] \<Rightarrow> True
      | c # _ \<Rightarrow> \<not> is_digit c \<and> c \<noteq> CHR ''.'' \<and> c \<noteq> CHR ''e'' \<and> c \<noteq> CHR ''E'')"

section \<open>The bridge\<close>

subsection \<open>State\<close>

text \<open>
  A cache entry is the dictionary \<^verbatim>\<open>_load_devices\<close> builds: always the same five keys, so a
  record.  \<open>zone\<close> is \<^verbatim>\<open>None\<close> or a string; \<open>current_state\<close> starts as \<open>-1\<close> and later
  holds whatever level the hub reported.
\<close>

record device =
  device_id :: string
  name :: json
  type :: json
  zone :: "string option"
  current_state :: json

record scene =
  scene_id :: string
  scene_name :: json

text \<open>
  The \<^verbatim>\<open>StreamReader\<close> of a connection, seen from the client: the lines that successive
  \<^verbatim>\<open>readline\<close> calls will return, whether the peer has closed the stream after them, and
  the exception the transport has set, if any.
\<close>

record stream_reader =
  buffer :: "string list"
  eof :: bool
  exception :: "error option"

text \<open>What the client does to the network, in order: the connections it opens, the bytes
  it writes, the connections it closes.\<close>

datatype event =
    Open string int
  | Sent string
  | Closed

text \<open>A subscriber's callback is an opaque callable.  It is named by a number, and what a
  call of it does to its caller is part of it: the call returns, or it raises an exception.
  A callback is taken not to touch the bridge.\<close>

datatype callback = Callback (callable: nat) (raises: "error option")

text \<open>
  The attributes of a \<^verbatim>\<open>Smartbridge\<close>.  \<^verbatim>\<open>_reader\<close> and \<^verbatim>\<open>_writer\<close> are set and cleared
  together and belong to one connection, so they are one field.  \<open>wire\<close> and \<open>called\<close> are
  the observable effects: the network events and the callbacks invoked so far.
\<close>

record bridge =
  devices :: "(string \<times> device) list"
  scenes :: "(string \<times> scene) list"
  logged_in :: bool
  subscribers :: "(string \<times> callback) list"
  hostname :: string
  port :: int
  reader :: "stream_reader option"
  wire :: "event list"
  called :: "(string \<times> callback) list"

text \<open>\<^verbatim>\<open>asyncio.open_connection\<close>: for a host and a port, a fresh connection or an error.\<close>

type_synonym network = "string \<Rightarrow> int \<Rightarrow> error + stream_reader"

definition LEAP_PORT :: int where
  "LEAP_PORT = 8081"

subsection \<open>The transport\<close>

definition at_eof :: "stream_reader \<Rightarrow> bool" where
  "at_eof r \<longleftrightarrow> eof r \<and> buffer r = []"

definition readline :: "stream_reader \<Rightarrow> (error + string) \<times> stream_reader" where
  "readline r =
     (case exception r of
        Some e \<Rightarrow> (Inl e, r)
      | None \<Rightarrow>
          (case buffer r of
             line # rest \<Rightarrow> (Inr line, r\<lparr>buffer := rest\<rparr>)
           | [] \<Rightarrow> if eof r then (Inr [], r) else (Inl Pending, r)))"

text \<open>\<^verbatim>\<open>_write_object\<close>: the encoded object and a CRLF are written, then \<^verbatim>\<open>drain\<close> raises
  the exception of the connection if one is set.\<close>

definition write_object :: "bridge \<Rightarrow> json \<Rightarrow> (error + unit) \<times> bridge" where
  "write_object s obj =
     (let data = json_dumps obj in
      case reader s of
        None \<Rightarrow> (Inl AttributeError, s)
      | Some r \<Rightarrow>
          (let s' = s\<lparr>wire := wire s @ [Sent (data @ [CHR 0x0D, CHR 0x0A])]\<rparr> in
           case exception r of
             Some e \<Rightarrow> (Inl e, s')
           | None \<Rightarrow> (Inr (), s')))"

text \<open>\<^verbatim>\<open>_read_object\<close>: \<^verbatim>\<open>None\<close> for an empty read, the decoded line otherwise, and the
  decoder's \<^verbatim>\<open>ValueError\<close> re-raised.\<close>

definition read_object :: "bridge \<Rightarrow> (error + json) \<times> bridge" where
  "read_object s =
     (case reader s of
        None \<Rightarrow> (Inl AttributeError, s)
      | Some r \<Rightarrow>
          (case readline r of
             (Inl e, r') \<Rightarrow> (Inl e, s\<lparr>reader := Some r'\<rparr>)
           | (Inr received, r') \<Rightarrow>
               (let s' = s\<lparr>reader := Some r'\<rparr> in
                if received = [] then (Inr JNull, s')
                else
                  (case json_loads received of
                     None \<Rightarrow> (Inl ValueError, s')
                   | Some v \<Rightarrow> (Inr v, s')))))"

text \<open>\<^verbatim>\<open>_send_command\<close> runs \<^verbatim>\<open>_write_object\<close> on the loop and returns nothing.\<close>

definition send_command :: "bridge \<Rightarrow> json \<Rightarrow> (error + json) \<times> bridge" where
  "send_command s cmd =
     (case write_object s cmd of
        (Inl e, s') \<Rightarrow> (Inl e, s')
      | (Inr u, s') \<Rightarrow> (Inr JNull, s'))"

subsection \<open>Queries and commands\<close>

definition add_subscriber :: "bridge \<Rightarrow> string \<Rightarrow> callback \<Rightarrow> bridge" where
  "add_subscriber s did callback =
     s\<lparr>subscribers := AList.update did callback (subscribers s)\<rparr>"

definition get_devices :: "bridge \<Rightarrow> (string \<times> device) list" where
  "get_devices s = devices s"

definition get_device_by_id :: "bridge \<Rightarrow> string \<Rightarrow> error + device" where
  "get_device_by_id s did =
     (case map_of (devices s) did of None \<Rightarrow> Inl KeyError | Some d \<Rightarrow> Inr d)"

definition get_scenes :: "bridge \<Rightarrow> (string \<times> scene) list" where
  "get_scenes s = scenes s"

definition get_scene_by_id :: "bridge \<Rightarrow> string \<Rightarrow> error + scene" where
  "get_scene_by_id s sid =
     (case map_of (scenes s) sid of None \<Rightarrow> Inl KeyError | Some sc \<Rightarrow> Inr sc)"

definition is_connected :: "bridge \<Rightarrow> bool" where
  "is_connected s = logged_in s"

text \<open>\<^verbatim>\<open>_get_zone_id\<close>: every cache entry has the key \<^verbatim>\<open>'zone'\<close>, so the entry's zone is
  returned, \<^verbatim>\<open>None\<close> included.\<close>

definition get_zone_id :: "bridge \<Rightarrow> string \<Rightarrow> error + string option" where
  "get_zone_id s did =
     (case map_of (devices s) did of
        None \<Rightarrow> Inl KeyError
      | Some device \<Rightarrow> Inr (zone device))"

definition zone_status_request :: "string \<Rightarrow> json" where
  "zone_status_request zone_id =
     JObj [(''CommuniqueType'', JStr ''ReadRequest''),
           (''Header'', JObj [(''Url'', JStr (''/zone/'' @ zone_id @ ''/status''))])]"

text \<open>\<^verbatim>\<open>get_value\<close>: for a device with a non-empty zone a status request is sent and the
  (empty) result of \<^verbatim>\<open>_send_command\<close> returned; otherwise nothing happens.\<close>

definition get_value :: "bridge \<Rightarrow> string \<Rightarrow> (error + json) \<times> bridge" where
  "get_value s did =
     (case get_zone_id s did of
        Inl e \<Rightarrow> (Inl e, s)
      | Inr None \<Rightarrow> (Inr JNull, s)
      | Inr (Some zone_id) \<Rightarrow>
          if zone_id \<noteq> [] then send_command s (zone_status_request zone_id)
          else (Inr JNull, s))"

definition is_on :: "bridge \<Rightarrow> string \<Rightarrow> error + bool" where
  "is_on s did =
     (case map_of (devices s) did of
        None \<Rightarrow> Inl KeyError
      | Some device \<Rightarrow> gt_zero (current_state device))"

definition go_to_level :: "string \<Rightarrow> json \<Rightarrow> json" where
  "go_to_level zone_id val =
     JObj [(''CommuniqueType'', JStr ''CreateRequest''),
           (''Header'', JObj [(''Url'', JStr (''/zone/'' @ zone_id @ ''/commandprocessor''))]),
           (''Body'',
            JObj [(''Command'',
                   JObj [(''CommandType'', JStr ''GoToLevel''),
                         (''Parameter'',
                          JArr [JObj [(''Type'', JStr ''Level''), (''Value'', val)]])])])]"

definition set_value :: "bridge \<Rightarrow> string \<Rightarrow> json \<Rightarrow> (error + json) \<times> bridge" where
  "set_value s did val =
     (case get_zone_id s did of
        Inl e \<Rightarrow> (Inl e, s)
      | Inr None \<Rightarrow> (Inr JNull, s)
      | Inr (Some zone_id) \<Rightarrow>
          if zone_id \<noteq> [] then send_command s (go_to_level zone_id val)
          else (Inr JNull, s))"

definition turn_on :: "bridge \<Rightarrow> string \<Rightarrow> (error + json) \<times> bridge" where
  "turn_on s did = set_value s did (JInt 100)"

definition turn_off :: "bridge \<Rightarrow> string \<Rightarrow> (error + json) \<times> bridge" where
  "turn_off s did = set_value s did (JInt 0)"

definition press_and_release :: "string \<Rightarrow> json" where
  "press_and_release sid =
     JObj [(''CommuniqueType'', JStr ''CreateRequest''),
           (''Header'',
            JObj [(''Url'', JStr (''/virtualbutton/'' @ sid @ ''/commandprocessor''))]),
           (''Body'', JObj [(''Command'', JObj [(''CommandType'', JStr ''PressAndRelease'')])])]"

definition activate_scene :: "bridge \<Rightarrow> string \<Rightarrow> (error + json) \<times> bridge" where
  "activate_scene s sid =
     (if map_of (scenes s) sid \<noteq> None then send_command s (press_and_release sid)
      else (Inr JNull, s))"

subsection \<open>Pushed status\<close>

text \<open>
  The loop of \<^verbatim>\<open>_handle_response\<close> over the cache: an entry whose zone is the pushed one
  gets the level, and then its subscriber, if there is one, is called.  The call is not
  guarded: a callback that raises ends the loop there, with the entries after it as they
  were.  The result is the new cache, the calls made, in order, and the exception that ended
  the loop, if any.
\<close>

fun update_zone ::
  "string \<Rightarrow> json \<Rightarrow> (string \<times> callback) list \<Rightarrow> (string \<times> device) list
     \<Rightarrow> (string \<times> device) list \<times> (string \<times> callback) list \<times> error option" where
  "update_zone z level subs [] = ([], [], None)"
| "update_zone z level subs ((did, device) # rest) =
     (if Some z = zone device then
        (case map_of subs did of
           None \<Rightarrow>
             (let (rest', calls, exc) = update_zone z level subs rest
              in ((did, device\<lparr>current_state := level\<rparr>) # rest', calls, exc))
         | Some cb \<Rightarrow>
             (case raises cb of
                Some e \<Rightarrow> ((did, device\<lparr>current_state := level\<rparr>) # rest, [(did, cb)], Some e)
              | None \<Rightarrow>
                  (let (rest', calls, exc) = update_zone z level subs rest
                   in ((did, device\<lparr>current_state := level\<rparr>) # rest', (did, cb) # calls, exc))))
      else
        (let (rest', calls, exc) = update_zone z level subs rest
         in ((did, device) # rest', calls, exc)))"

text \<open>\<^verbatim>\<open>_handle_response\<close>: a missing key or a value of the wrong type raises before the
  cache is touched; an exception of a callback leaves the method with the cache as the loop
  left it.\<close>

definition handle_response :: "bridge \<Rightarrow> json \<Rightarrow> (error + unit) \<times> bridge" where
  "handle_response s resp_json =
     (case getitem resp_json ''CommuniqueType'' of
        Inl e \<Rightarrow> (Inl e, s)
      | Inr comm_type \<Rightarrow>
          if comm_type = JStr ''ReadResponse'' then
            (case getitem resp_json ''Body'' of
               Inl e \<Rightarrow> (Inl e, s)
             | Inr body \<Rightarrow>
            (case getitem body ''ZoneStatus'' of
               Inl e \<Rightarrow> (Inl e, s)
             | Inr status \<Rightarrow>
            (case getitem status ''Zone'' of
               Inl e \<Rightarrow> (Inl e, s)
             | Inr zone_ref \<Rightarrow>
            (case getitem zone_ref ''href'' of
               Inl e \<Rightarrow> (Inl e, s)
             | Inr href \<Rightarrow>
            (case href_id href of
               Inl e \<Rightarrow> (Inl e, s)
             | Inr z \<Rightarrow>
            (case getitem status ''Level'' of
               Inl e \<Rightarrow> (Inl e, s)
             | Inr level \<Rightarrow>
                 (let (devs, calls, exc) = update_zone z level (subscribers s) (devices s)
                  in ((case exc of None \<Rightarrow> Inr () | Some e \<Rightarrow> Inl e),
                      s\<lparr>devices := devs, called := called s @ calls\<rparr>))))))))
          else (Inr (), s))"

text \<open>The callbacks that the loop calls for the devices of zone \<open>z\<close> all return: for every
  entry of the cache with that zone, the subscriber of its id, if there is one, does not
  raise.\<close>

definition subscribers_return ::
  "string \<Rightarrow> (string \<times> callback) list \<Rightarrow> (string \<times> device) list \<Rightarrow> bool" where
  "subscribers_return z subs devs \<longleftrightarrow>
     list_all (\<lambda>(did, device).
        if Some z = zone device then
          (case map_of subs did of None \<Rightarrow> True | Some cb \<Rightarrow> raises cb = None)
        else True) devs"

subsection \<open>Login\<close>

text \<open>One entry of the hub's device list, as the body of the loop in \<^verbatim>\<open>_load_devices\<close>
  reads it.  \<^verbatim>\<open>device['href']\<close> comes first, so anything but a dictionary is a
  \<^verbatim>\<open>TypeError\<close>.\<close>

definition read_device :: "json \<Rightarrow> error + device" where
  "read_device dev =
     (case getitem dev ''href'' of
        Inl e \<Rightarrow> Inl e
      | Inr href \<Rightarrow>
     (case href_id href of
        Inl e \<Rightarrow> Inl e
      | Inr did \<Rightarrow>
     (case (case getitem dev ''LocalZones'' of
              Inl e \<Rightarrow> Inr None
            | Inr zones \<Rightarrow>
                (case getitem0 zones of
                   Inl e \<Rightarrow> Inl e
                 | Inr z0 \<Rightarrow>
                (case getitem z0 ''href'' of
                   Inl e \<Rightarrow> Inl e
                 | Inr zhref \<Rightarrow>
                (case href_id zhref of
                   Inl e \<Rightarrow> Inl e
                 | Inr z \<Rightarrow> Inr (Some z))))) of
        Inl e \<Rightarrow> Inl e
      | Inr device_zone \<Rightarrow>
     (case getitem dev ''Name'' of
        Inl e \<Rightarrow> Inl e
      | Inr device_name \<Rightarrow>
     (case getitem dev ''DeviceType'' of
        Inl e \<Rightarrow> Inl e
      | Inr device_type \<Rightarrow>
          Inr \<lparr>device_id = did, name = device_name, type = device_type,
               zone = device_zone, current_state = JInt (- 1)\<rparr>)))))"

fun store_devices :: "json list \<Rightarrow> bridge \<Rightarrow> (error + unit) \<times> bridge" where
  "store_devices [] s = (Inr (), s)"
| "store_devices (dev # rest) s =
     (case read_device dev of
        Inl e \<Rightarrow> (Inl e, s)
      | Inr d \<Rightarrow> store_devices rest (s\<lparr>devices := AList.update (device_id d) d (devices s)\<rparr>))"

definition load_devices :: "bridge \<Rightarrow> (error + unit) \<times> bridge" where
  "load_devices s =
     (case write_object s
             (JObj [(''CommuniqueType'', JStr ''ReadRequest''),
                    (''Header'', JObj [(''Url'', JStr ''/device'')])]) of
        (Inl e, s1) \<Rightarrow> (Inl e, s1)
      | (Inr u, s1) \<Rightarrow>
     (case read_object s1 of
        (Inl e, s2) \<Rightarrow> (Inl e, s2)
      | (Inr device_json, s2) \<Rightarrow>
     (case getitem device_json ''Body'' of
        Inl e \<Rightarrow> (Inl e, s2)
      | Inr body \<Rightarrow>
     (case getitem body ''Devices'' of
        Inl e \<Rightarrow> (Inl e, s2)
      | Inr listed \<Rightarrow>
     (case py_iter listed of
        Inl e \<Rightarrow> (Inl e, s2)
      | Inr devs \<Rightarrow> store_devices devs s2)))))"

text \<open>One entry of the hub's virtual-button list: \<open>None\<close> when the button is not
  programmed.\<close>

definition read_scene :: "json \<Rightarrow> error + scene option" where
  "read_scene sc =
     (case getitem sc ''IsProgrammed'' of
        Inl e \<Rightarrow> Inl e
      | Inr programmed \<Rightarrow>
          if truthy programmed then
            (case getitem sc ''href'' of
               Inl e \<Rightarrow> Inl e
             | Inr href \<Rightarrow>
            (case href_id href of
               Inl e \<Rightarrow> Inl e
             | Inr sid \<Rightarrow>
            (case getitem sc ''Name'' of
               Inl e \<Rightarrow> Inl e
             | Inr nm \<Rightarrow> Inr (Some \<lparr>scene_id = sid, scene_name = nm\<rparr>))))
          else Inr None)"

fun store_scenes :: "json list \<Rightarrow> bridge \<Rightarrow> (error + unit) \<times> bridge" where
  "store_scenes [] s = (Inr (), s)"
| "store_scenes (sc # rest) s =
     (case read_scene sc of
        Inl e \<Rightarrow> (Inl e, s)
      | Inr None \<Rightarrow> store_scenes rest s
      | Inr (Some x) \<Rightarrow> store_scenes rest (s\<lparr>scenes := AList.update (scene_id x) x (scenes s)\<rparr>))"

definition load_scenes :: "bridge \<Rightarrow> (error + unit) \<times> bridge" where
  "load_scenes s =
     (case write_object s
             (JObj [(''CommuniqueType'', JStr ''ReadRequest''),
                    (''Header'', JObj [(''Url'', JStr ''/virtualbutton'')])]) of
        (Inl e, s1) \<Rightarrow> (Inl e, s1)
      | (Inr u, s1) \<Rightarrow>
     (case read_object s1 of
        (Inl e, s2) \<Rightarrow> (Inl e, s2)
      | (Inr scene_json, s2) \<Rightarrow>
     (case getitem scene_json ''Body'' of
        Inl e \<Rightarrow> (Inl e, s2)
      | Inr body \<Rightarrow>
     (case getitem body ''VirtualButtons'' of
        Inl e \<Rightarrow> (Inl e, s2)
      | Inr listed \<Rightarrow>
     (case py_iter listed of
        Inl e \<Rightarrow> (Inl e, s2)
      | Inr buttons \<Rightarrow> store_scenes buttons s2)))))"

text \<open>The last loop of \<^verbatim>\<open>_login\<close>: a status request for every cached device with a
  zone.\<close>

fun request_status :: "(string \<times> device) list \<Rightarrow> bridge \<Rightarrow> (error + unit) \<times> bridge" where
  "request_status [] s = (Inr (), s)"
| "request_status ((did, device) # rest) s =
     (case zone device of
        None \<Rightarrow> request_status rest s
      | Some z \<Rightarrow>
          (case write_object s (zone_status_request z) of
             (Inl e, s') \<Rightarrow> (Inl e, s')
           | (Inr u, s') \<Rightarrow> request_status rest s'))"

text \<open>
  \<^verbatim>\<open>_login\<close>.  With a reader that has no exception and is not at end of file the call
  returns at once.  Otherwise a stale connection is closed and forgotten, the session is
  marked as not logged in, a connection is opened, the caches are loaded and the status
  requests are written.  The lock around the body has no effect on a single caller.
\<close>

definition login :: "network \<Rightarrow> bridge \<Rightarrow> (error + unit) \<times> bridge" where
  "login net s =
     (if (case reader s of None \<Rightarrow> False | Some r \<Rightarrow> exception r = None \<and> \<not> at_eof r)
      then (Inr (), s)
      else
        (let s1 = (case reader s of
                     None \<Rightarrow> s
                   | Some r \<Rightarrow> s\<lparr>reader := None, wire := wire s @ [Closed]\<rparr>);
             s2 = s1\<lparr>logged_in := False, wire := wire s1 @ [Open (hostname s1) LEAP_PORT]\<rparr>
         in case net (hostname s2) LEAP_PORT of
              Inl e \<Rightarrow> (Inl e, s2)
            | Inr r \<Rightarrow>
           (case load_devices (s2\<lparr>reader := Some r\<rparr>) of
              (Inl e, s3) \<Rightarrow> (Inl e, s3)
            | (Inr u, s3) \<Rightarrow>
           (case load_scenes s3 of
              (Inl e, s4) \<Rightarrow> (Inl e, s4)
            | (Inr u, s4) \<Rightarrow>
           (case request_status (devices s4) s4 of
              (Inl e, s5) \<Rightarrow> (Inl e, s5)
            | (Inr u, s5) \<Rightarrow> (Inr (), s5\<lparr>logged_in := True\<rparr>))))))"

text \<open>\<^verbatim>\<open>__init__\<close>: the attributes are set from the arguments and \<^verbatim>\<open>_login\<close> is run once.
  The TLS context and the monitor thread are not part of the model.\<close>

definition init :: "network \<Rightarrow> string \<Rightarrow> int \<Rightarrow> (error + unit) \<times> bridge" where
  "init net host p =
     login net
       \<lparr>devices = [], scenes = [], logged_in = False, subscribers = [],
        hostname = host, port = p, reader = None, wire = [], called = []\<rparr>"

text \<open>A result whose state has the \<open>port\<close> attribute set to \<open>p\<close>.\<close>

definition with_port :: "int \<Rightarrow> 'a \<times> bridge \<Rightarrow> 'a \<times> bridge" where
  "with_port p x = (fst x, (snd x)\<lparr>port := p\<rparr>)"

section \<open>Example sessions\<close>

text \<open>The hub's answers of a small installation: one dimmer on zone 3, one programmed and
  one unprogrammed virtual button.\<close>

definition crlf :: string where
  "crlf = [CHR 0x0D, CHR 0x0A]"

definition lamp_json :: json where
  "lamp_json =
     JObj [(''href'', JStr ''/device/5''), (''Name'', JStr ''Lamp''),
           (''DeviceType'', JStr ''WallDimmer''),
           (''LocalZones'', JArr [JObj [(''href'', JStr ''/zone/3'')]])]"

definition device_list :: json where
  "device_list = JObj [(''Body'', JObj [(''Devices'', JArr [lamp_json])])]"

definition button_list :: json where
  "button_list =
     JObj [(''Body'',
            JObj [(''VirtualButtons'',
                   JArr [JObj [(''href'', JStr ''/virtualbutton/1''), (''Name'', JStr ''Evening''),
                               (''IsProgrammed'', JBool True)],
                         JObj [(''href'', JStr ''/virtualbutton/2''), (''Name'', JStr ''Button 2''),
                               (''IsProgrammed'', JBool False)]])])]"

definition fresh_reader :: stream_reader where
  "fresh_reader =
     \<lparr>buffer = [json_dumps device_list @ crlf, json_dumps button_list @ crlf],
      eof = False, exception = None\<rparr>"

text \<open>A hub that accepts connections on one port only.\<close>

definition hub_on :: "int \<Rightarrow> network" where
  "hub_on p0 h p = (if p = p0 then Inr fresh_reader else Inl OSError)"

definition lamp :: device where
  "lamp =
     \<lparr>device_id = ''5'', name = JStr ''Lamp'', type = JStr ''WallDimmer'',
      zone = Some ''3'', current_state = JInt (- 1)\<rparr>"

definition pico :: device where
  "pico =
     \<lparr>device_id = ''2'', name = JStr ''Remote'', type = JStr ''Pico3ButtonRaiseLower'',
      zone = None, current_state = JInt (- 1)\<rparr>"

definition evening :: scene where
  "evening = \<lparr>scene_id = ''1'', scene_name = JStr ''Evening''\<rparr>"

definition idle_reader :: stream_reader where
  "idle_reader = \<lparr>buffer = [], eof = False, exception = None\<rparr>"

text \<open>A callback that returns, and one that raises.\<close>

definition notify :: callback where
  "notify = Callback 0 None"


text \<open>A session in the ready state: a dimmer on zone 3 with a subscriber, a remote without a
  zone, one scene, an idle connection.\<close>

definition ready_bridge :: bridge where
  "ready_bridge =
     \<lparr>devices = [(''5'', lamp), (''2'', pico)], scenes = [(''1'', evening)], logged_in = True,
      subscribers = [(''5'', notify)], hostname = ''hub'', port = 8081,
      reader = Some idle_reader, wire = [], called = []\<rparr>"

text \<open>The same session after the peer has closed the connection; a scene that the hub no
  longer lists is still cached.\<close>

definition closed_reader :: stream_reader where
  "closed_reader = \<lparr>buffer = [], eof = True, exception = None\<rparr>"

definition old_scene :: scene where
  "old_scene = \<lparr>scene_id = ''7'', scene_name = JStr ''Holiday''\<rparr>"

definition stale_bridge :: bridge where
  "stale_bridge =
     ready_bridge\<lparr>scenes := [(''1'', evening), (''7'', old_scene)], reader := Some closed_reader\<rparr>"

text \<open>The ready session after zone 3 was reported at level 42.\<close>

definition lit_bridge :: bridge where
  "lit_bridge = ready_bridge\<lparr>devices := [(''5'', lamp\<lparr>current_state := JInt 42\<rparr>), (''2'', pico)]\<rparr>"

text \<open>The hub's push after zone 3 went to level 42.\<close>

definition zone_status :: "string \<Rightarrow> json \<Rightarrow> json" where
  "zone_status href level = JObj [(''Zone'', JObj [(''href'', JStr href)]), (''Level'', level)]"

definition push42 :: json where
  "push42 =
     JObj [(''CommuniqueType'', JStr ''ReadResponse''),
           (''Body'', JObj [(''ZoneStatus'', zone_status ''/zone/3'' (JInt 42))])]"



text \<open>A session whose peer sends back the command that switches zone 3 on.\<close>

definition echo_reader :: stream_reader where
  "echo_reader =
     \<lparr>buffer = [json_dumps (go_to_level ''3'' (JInt 100)) @ crlf], eof = False,
      exception = None\<rparr>"

definition echo_bridge :: bridge where
  "echo_bridge = ready_bridge\<lparr>reader := Some echo_reader\<rparr>"

section \<open>Properties of the commands\<close>

subsection \<open>The connection target\<close>

text \<open>
  C2.  The constructor stores its \<^verbatim>\<open>port\<close> argument, but \<^verbatim>\<open>_login\<close> opens the connection to
  the constant \<^verbatim>\<open>LEAP_PORT\<close>.  A bridge built for port 8083, with a hub that listens on 8083
  only, tries port 8081 and fails.
\<close>

theorem init_port_8083:
  "fst (init (hub_on 8083) ''hub'' 8083) = Inl OSError
   \<and> wire (snd (init (hub_on 8083) ''hub'' 8083)) = [Open ''hub'' 8081]
   \<and> port (snd (init (hub_on 8083) ''hub'' 8083)) = 8083"
  by (simp add: init_def login_def hub_on_def LEAP_PORT_def)

subsection \<open>Login with a live connection\<close>

text \<open>
  C5.  When the session holds a reader with no exception set that is not at end of file,
  \<^verbatim>\<open>_login\<close> returns at once: the result is the unchanged state, so nothing is opened,
  written, read or closed, and the caches and the \<open>logged_in\<close> flag are as before.
\<close>

theorem login_when_alive:
  assumes "reader s = Some r" and "exception r = None" and "\<not> at_eof r"
  shows "login net s = (Inr (), s)"
  using assms by (simp add: login_def)

theorem login_when_alive_witness:
  "reader ready_bridge = Some idle_reader \<and> exception idle_reader = None
   \<and> \<not> at_eof idle_reader
   \<and> login (hub_on 8081) ready_bridge = (Inr (), ready_bridge)"
proof -
  have r: "reader ready_bridge = Some idle_reader"
    by (simp add: ready_bridge_def)
  have e: "exception idle_reader = None"
    by (simp add: idle_reader_def)
  have a: "\<not> at_eof idle_reader"
    by (simp add: idle_reader_def at_eof_def)
  from login_when_alive [OF r e a] r e a show ?thesis
    by simp
qed

subsection \<open>Switching on and off\<close>

text \<open>
  C7.  \<^verbatim>\<open>turn_on\<close> is \<^verbatim>\<open>set_value\<close> with 100 and \<^verbatim>\<open>turn_off\<close> is \<^verbatim>\<open>set_value\<close> with 0: the
  same result and the same state after, hence the same bytes on the wire.
\<close>

theorem turn_on_off_set_value:
  "turn_on s did = set_value s did (JInt 100) \<and> turn_off s did = set_value s did (JInt 0)"
  by (simp add: turn_on_def turn_off_def)

text \<open>What \<^verbatim>\<open>set_value\<close> writes for a device with a zone, on a healthy connection.\<close>

lemma set_value_sends:
  assumes "map_of (devices s) did = Some d" and "zone d = Some z" and "z \<noteq> []"
    and "reader s = Some r" and "exception r = None"
  shows "set_value s did v =
    (Inr JNull, s\<lparr>wire := wire s @ [Sent (json_dumps (go_to_level z v) @ crlf)]\<rparr>)"
  using assms
  by (simp add: set_value_def get_zone_id_def send_command_def write_object_def crlf_def)

subsection \<open>Unknown scenes\<close>

text \<open>
  C8.  For a scene id that is not a key of the scene cache, \<^verbatim>\<open>activate_scene\<close> returns
  \<^verbatim>\<open>None\<close> without an error and the state after is the state before: nothing is written.
\<close>

theorem activate_unknown_scene:
  assumes "map_of (scenes s) sid = None"
  shows "activate_scene s sid = (Inr JNull, s)"
  using assms by (simp add: activate_scene_def)

theorem activate_unknown_scene_witness:
  "map_of (scenes ready_bridge) ''23'' = None
   \<and> activate_scene ready_bridge ''23'' = (Inr JNull, ready_bridge)"
proof -
  have u: "map_of (scenes ready_bridge) ''23'' = None"
    by (simp add: ready_bridge_def)
  from activate_unknown_scene [OF u] u show ?thesis
    by simp
qed

subsection \<open>Devices that never reported\<close>

text \<open>Every entry \<^verbatim>\<open>_load_devices\<close> stores starts with the level \<open>-1\<close>.\<close>

lemma read_device_current_state:
  "read_device dev = Inr d \<Longrightarrow> current_state d = JInt (- 1)"
  by (auto simp: read_device_def split: sum.splits)

text \<open>
  C10.  For a cached device whose \<open>current_state\<close> is still the initial \<open>-1\<close>, \<^verbatim>\<open>is_on\<close>
  returns \<^verbatim>\<open>False\<close>, as it does for a device that is off.
\<close>

theorem is_on_never_reported:
  assumes "map_of (devices s) did = Some d" and "current_state d = JInt (- 1)"
  shows "is_on s did = Inr False"
  using assms by (simp add: is_on_def)

theorem is_on_never_reported_witness:
  "map_of (devices ready_bridge) ''5'' = Some lamp \<and> current_state lamp = JInt (- 1)
   \<and> is_on ready_bridge ''5'' = Inr False"
proof -
  have m: "map_of (devices ready_bridge) ''5'' = Some lamp"
    by (simp add: ready_bridge_def)
  have c: "current_state lamp = JInt (- 1)"
    by (simp add: lamp_def)
  from is_on_never_reported [OF m c] m c show ?thesis
    by simp
qed

subsection \<open>Pushed zone status\<close>

text \<open>One step of the loop, with the result of the remaining steps taken apart.\<close>

lemma update_zone_Cons:
  "update_zone z l subs ((k, d) # rest) =
     (if Some z = zone d then
        (case map_of subs k of
           None \<Rightarrow>
             ((k, d\<lparr>current_state := l\<rparr>) # fst (update_zone z l subs rest),
              fst (snd (update_zone z l subs rest)), snd (snd (update_zone z l subs rest)))
         | Some cb \<Rightarrow>
             (case raises cb of
                Some e \<Rightarrow> ((k, d\<lparr>current_state := l\<rparr>) # rest, [(k, cb)], Some e)
              | None \<Rightarrow>
                  ((k, d\<lparr>current_state := l\<rparr>) # fst (update_zone z l subs rest),
                   (k, cb) # fst (snd (update_zone z l subs rest)),
                   snd (snd (update_zone z l subs rest)))))
      else
        ((k, d) # fst (update_zone z l subs rest),
         fst (snd (update_zone z l subs rest)), snd (snd (update_zone z l subs rest))))"
  by (simp add: case_prod_unfold Let_def split: option.splits)

text \<open>The loop keeps the keys of the cache.  Every entry is as it was, or it is of the pushed
  zone and holds the level; calls are made for keys of the cache only.\<close>

lemma update_zone_keys:
  "map fst (fst (update_zone z l subs devs)) = map fst devs"
  by (induction devs)
    (auto simp del: update_zone.simps(2) simp: update_zone_Cons split: option.splits if_splits)

lemma update_zone_map_of:
  "map_of devs k = Some d \<Longrightarrow>
   map_of (fst (update_zone z l subs devs)) k = Some d
   \<or> Some z = zone d \<and> map_of (fst (update_zone z l subs devs)) k = Some (d\<lparr>current_state := l\<rparr>)"
  by (induction devs)
    (auto simp del: update_zone.simps(2) simp: update_zone_Cons split: option.splits if_splits)





text \<open>An exception that ends the loop is the one of a callback subscribed to a device of
  the pushed zone.\<close>

lemma update_zone_raises:
  "snd (snd (update_zone z l subs devs)) = Some e \<Longrightarrow>
   \<exists>k d cb. (k, d) \<in> set devs \<and> Some z = zone d \<and> map_of subs k = Some cb \<and> raises cb = Some e"
proof (induction devs)
  case Nil
  then show ?case by simp
next
  case (Cons a devs)
  obtain k' d' where a: "a = (k', d')" by (cases a)
  show ?case
  proof (cases "Some z = zone d' \<and> (\<exists>cb. map_of subs k' = Some cb \<and> raises cb = Some e)")
    case True
    with a show ?thesis by auto
  next
    case False
    with Cons.prems a have "snd (snd (update_zone z l subs devs)) = Some e"
      by (auto simp del: update_zone.simps(2) simp: update_zone_Cons
          split: option.splits if_splits)
    from Cons.IH [OF this] show ?thesis by auto
  qed
qed

text \<open>The condition on the callbacks, in terms of the cache as a dictionary.\<close>

lemma subscribers_return_iff:
  assumes "distinct (map fst devs)"
  shows "subscribers_return z subs devs \<longleftrightarrow>
     (\<forall>k d cb. map_of devs k = Some d \<and> zone d = Some z \<and> map_of subs k = Some cb
        \<longrightarrow> raises cb = None)"
proof
  assume q: "subscribers_return z subs devs"
  show "\<forall>k d cb. map_of devs k = Some d \<and> zone d = Some z \<and> map_of subs k = Some cb
        \<longrightarrow> raises cb = None"
  proof (intro allI impI, elim conjE)
    fix k d cb
    assume "map_of devs k = Some d" and z: "zone d = Some z" and s: "map_of subs k = Some cb"
    then have "(k, d) \<in> set devs"
      by (simp add: map_of_SomeD)
    with q have "if Some z = zone d
        then (case map_of subs k of None \<Rightarrow> True | Some cb \<Rightarrow> raises cb = None) else True"
      unfolding subscribers_return_def list_all_iff by fastforce
    with z s show "raises cb = None"
      by simp
  qed
next
  assume a: "\<forall>k d cb. map_of devs k = Some d \<and> zone d = Some z \<and> map_of subs k = Some cb
        \<longrightarrow> raises cb = None"
  show "subscribers_return z subs devs"
    unfolding subscribers_return_def list_all_iff
  proof
    fix x
    assume x: "x \<in> set devs"
    obtain k d where kd: "x = (k, d)" by (cases x)
    from x kd assms have m: "map_of devs k = Some d"
      by simp
    show "case x of (did, device) \<Rightarrow>
        if Some z = zone device
        then (case map_of subs did of None \<Rightarrow> True | Some cb \<Rightarrow> raises cb = None) else True"
    proof (cases "Some z = zone d")
      case True
      show ?thesis
      proof (cases "map_of subs k")
        case None
        with kd show ?thesis by simp
      next
        case (Some cb)
        with a m True have "raises cb = None" by metis
        with kd Some show ?thesis by simp
      qed
    next
      case False
      with kd show ?thesis by simp
    qed
  qed
qed


lemma href_id_Inr: "href_id j = Inr z \<longleftrightarrow> (\<exists>h. j = JStr h \<and> z = last_segment h)"
  by (cases j) auto

lemma handle_response_cases:
  assumes "handle_response s msg = (res, s')"
  shows "s' = s \<or>
    (\<exists>body status zref href level.
        getitem msg ''CommuniqueType'' = Inr (JStr ''ReadResponse'')
      \<and> getitem msg ''Body'' = Inr body \<and> getitem body ''ZoneStatus'' = Inr status
      \<and> getitem status ''Zone'' = Inr zref \<and> getitem zref ''href'' = Inr (JStr href)
      \<and> getitem status ''Level'' = Inr level
      \<and> s' = s\<lparr>devices := fst (update_zone (last_segment href) level (subscribers s) (devices s)),
               called := called s @ fst (snd (update_zone (last_segment href) level (subscribers s) (devices s)))\<rparr>)"
  using assms
  by (auto simp: handle_response_def href_id_Inr split: sum.splits if_splits prod.splits)




text \<open>
  C6.  Whatever message is handled and however the call ends, a cached device whose zone is
  \<^verbatim>\<open>None\<close> keeps its entry, \<open>current_state\<close> included; and an entry that is not the same
  after the call belongs to a device whose zone is the id of a pushed zone status, and only
  its \<open>current_state\<close> has changed, to the pushed level.
\<close>

theorem push_touches_matching_zone_only:
  assumes "handle_response s msg = (res, s')" and "map_of (devices s) did = Some d"
  shows "(zone d = None \<longrightarrow> map_of (devices s') did = Some d)
    \<and> (map_of (devices s') did \<noteq> Some d \<longrightarrow>
         (\<exists>body status zref href level.
            getitem msg ''CommuniqueType'' = Inr (JStr ''ReadResponse'')
            \<and> getitem msg ''Body'' = Inr body \<and> getitem body ''ZoneStatus'' = Inr status
            \<and> getitem status ''Zone'' = Inr zref \<and> getitem zref ''href'' = Inr (JStr href)
            \<and> getitem status ''Level'' = Inr level
            \<and> zone d = Some (last_segment href)
            \<and> map_of (devices s') did = Some (d\<lparr>current_state := level\<rparr>)))"
proof -
  from handle_response_cases [OF assms(1)] show ?thesis
  proof
    assume "s' = s"
    with assms(2) show ?thesis by simp
  next
    assume "\<exists>body status zref href level.
        getitem msg ''CommuniqueType'' = Inr (JStr ''ReadResponse'')
      \<and> getitem msg ''Body'' = Inr body \<and> getitem body ''ZoneStatus'' = Inr status
      \<and> getitem status ''Zone'' = Inr zref \<and> getitem zref ''href'' = Inr (JStr href)
      \<and> getitem status ''Level'' = Inr level
      \<and> s' = s\<lparr>devices := fst (update_zone (last_segment href) level (subscribers s) (devices s)),
               called := called s @ fst (snd (update_zone (last_segment href) level (subscribers s) (devices s)))\<rparr>"
    then obtain body status zref href level where g:
      "getitem msg ''CommuniqueType'' = Inr (JStr ''ReadResponse'')"
      "getitem msg ''Body'' = Inr body" "getitem body ''ZoneStatus'' = Inr status"
      "getitem status ''Zone'' = Inr zref" "getitem zref ''href'' = Inr (JStr href)"
      "getitem status ''Level'' = Inr level"
      and s': "s' = s\<lparr>devices := fst (update_zone (last_segment href) level (subscribers s) (devices s)),
               called := called s @ fst (snd (update_zone (last_segment href) level (subscribers s) (devices s)))\<rparr>"
      by blast
    have m: "map_of (devices s') did = Some d
        \<or> Some (last_segment href) = zone d
          \<and> map_of (devices s') did = Some (d\<lparr>current_state := level\<rparr>)"
      using update_zone_map_of [OF assms(2), of "last_segment href" level "subscribers s"]
      by (simp add: s')
    then show ?thesis
    proof
      assume "map_of (devices s') did = Some d"
      then show ?thesis by simp
    next
      assume "Some (last_segment href) = zone d
          \<and> map_of (devices s') did = Some (d\<lparr>current_state := level\<rparr>)"
      with g show ?thesis by auto
    qed
  qed
qed

theorem push_touches_matching_zone_only_witness:
  "handle_response ready_bridge push42 =
     (Inr (), ready_bridge\<lparr>devices := [(''5'', lamp\<lparr>current_state := JInt 42\<rparr>), (''2'', pico)],
                          called := [(''5'', notify)]\<rparr>)
   \<and> map_of (devices ready_bridge) ''2'' = Some pico \<and> zone pico = None
   \<and> map_of (devices (ready_bridge\<lparr>devices := [(''5'', lamp\<lparr>current_state := JInt 42\<rparr>), (''2'', pico)],
                          called := [(''5'', notify)]\<rparr>)) ''2'' = Some pico"
proof -
  let ?s' = "ready_bridge\<lparr>devices := [(''5'', lamp\<lparr>current_state := JInt 42\<rparr>), (''2'', pico)],
                          called := [(''5'', notify)]\<rparr>"
  have h: "handle_response ready_bridge push42 = (Inr (), ?s')"
    by (simp add: handle_response_def push42_def zone_status_def ready_bridge_def lamp_def
        pico_def last_segment_def notify_def)
  have m: "map_of (devices ready_bridge) ''2'' = Some pico"
    by (simp add: ready_bridge_def)
  have z: "zone pico = None"
    by (simp add: pico_def)
  from push_touches_matching_zone_only [OF h m] z have "map_of (devices ?s') ''2'' = Some pico"
    by blast
  with h m z show ?thesis by blast
qed

subsection \<open>Asking for a level\<close>

text \<open>
  \<^verbatim>\<open>get_value\<close> on a dimmer that was last reported at level 42, on a session with an idle
  connection: the call writes a status request for zone 3 to the hub, and what it returns is
  \<^verbatim>\<open>None\<close>, not the level 42 of the cache.
\<close>

theorem get_value_lit_lamp:
  "map_of (devices lit_bridge) ''5'' = Some (lamp\<lparr>current_state := JInt 42\<rparr>)
   \<and> get_value lit_bridge ''5'' =
       (Inr JNull, lit_bridge\<lparr>wire := [Sent (json_dumps (zone_status_request ''3'') @ crlf)]\<rparr>)"
  by (simp add: lit_bridge_def ready_bridge_def get_value_def get_zone_id_def lamp_def
      send_command_def write_object_def idle_reader_def crlf_def)

text \<open>
  C3, as the code has it.  \<^verbatim>\<open>get_value\<close> is a request to the hub, not a pure query: for a
  cached device with a non-empty zone, on a session that holds a connection, it writes one
  \<^verbatim>\<open>ReadRequest\<close> for \<^verbatim>\<open>/zone/<zone>/status\<close> on the connection and changes nothing else
  of the session, the caches included; for a device whose zone is \<^verbatim>\<open>None\<close> or empty, or
  without a connection, the session is unchanged and nothing is written.
\<close>

theorem get_value_requests_status:
  assumes "map_of (devices s) did = Some d"
  shows "snd (get_value s did) =
     (case zone d of
        None \<Rightarrow> s
      | Some z \<Rightarrow>
          if z = [] \<or> reader s = None then s
          else s\<lparr>wire := wire s @ [Sent (json_dumps (zone_status_request z) @ crlf)]\<rparr>)"
  using assms
  by (auto simp: get_value_def get_zone_id_def send_command_def write_object_def crlf_def Let_def
      split: option.splits)

theorem get_value_requests_status_witness:
  "map_of (devices lit_bridge) ''5'' = Some (lamp\<lparr>current_state := JInt 42\<rparr>)
   \<and> snd (get_value lit_bridge ''5'') =
       lit_bridge\<lparr>wire := wire lit_bridge @ [Sent (json_dumps (zone_status_request ''3'') @ crlf)]\<rparr>
   \<and> devices (snd (get_value lit_bridge ''5'')) = devices lit_bridge"
proof -
  have m: "map_of (devices lit_bridge) ''5'' = Some (lamp\<lparr>current_state := JInt 42\<rparr>)"
    by (simp add: lit_bridge_def)
  have z: "zone (lamp\<lparr>current_state := JInt 42\<rparr>) = Some ''3''"
    by (simp add: lamp_def)
  have r: "reader lit_bridge \<noteq> None"
    by (simp add: lit_bridge_def ready_bridge_def)
  from get_value_requests_status [OF m] z r m show ?thesis
    by simp
qed

subsection \<open>Login and the caches\<close>

text \<open>What a successful write, read and load tell about the state before and after.\<close>

lemma write_object_wire:
  "\<exists>w. snd (write_object s obj) = s\<lparr>wire := wire s @ w\<rparr>"
proof (cases "reader s")
  case None
  then have "snd (write_object s obj) = s\<lparr>wire := wire s @ []\<rparr>"
    by (simp add: write_object_def)
  then show ?thesis by blast
next
  case (Some r)
  then have "snd (write_object s obj) = s\<lparr>wire := wire s @ [Sent (json_dumps obj @ crlf)]\<rparr>"
    by (simp add: write_object_def crlf_def Let_def split: option.splits)
  then show ?thesis by blast
qed

lemma write_object_Inr:
  assumes "write_object s obj = (Inr u, s')"
  shows "s' = s\<lparr>wire := wire s @ [Sent (json_dumps obj @ crlf)]\<rparr>
    \<and> (\<exists>r. reader s = Some r \<and> exception r = None)"
  using assms by (auto simp: write_object_def crlf_def Let_def split: option.splits)

lemma read_object_Inr:
  assumes "read_object s = (Inr v, s')" and "v \<noteq> JNull"
  shows "\<exists>r l ls. reader s = Some r \<and> exception r = None \<and> buffer r = l # ls
     \<and> json_loads l = Some v \<and> s' = s\<lparr>reader := Some (r\<lparr>buffer := ls\<rparr>)\<rparr>"
  using assms
  by (auto simp: read_object_def readline_def Let_def split: option.splits list.splits if_splits)

lemma store_devices_Inr:
  assumes "store_devices js s = (Inr u, s')"
  shows "\<exists>ds. map read_device js = map Inr ds
     \<and> s' = s\<lparr>devices := foldl (\<lambda>c d. AList.update (device_id d) d c) (devices s) ds\<rparr>"
  using assms
proof (induction js arbitrary: s)
  case Nil
  then show ?case by simp
next
  case (Cons j js)
  from Cons.prems obtain d where d: "read_device j = Inr d"
    and r: "store_devices js (s\<lparr>devices := AList.update (device_id d) d (devices s)\<rparr>) = (Inr u, s')"
    by (auto split: sum.splits)
  from Cons.IH [OF r] obtain ds where
    "map read_device js = map Inr ds"
    "s' = s\<lparr>devices := foldl (\<lambda>c d. AList.update (device_id d) d c) (AList.update (device_id d) d (devices s)) ds\<rparr>"
    by auto
  with d have "map read_device (j # js) = map Inr (d # ds)
     \<and> s' = s\<lparr>devices := foldl (\<lambda>c d. AList.update (device_id d) d c) (devices s) (d # ds)\<rparr>"
    by simp
  then show ?case by blast
qed

lemma store_scenes_Inr:
  assumes "store_scenes js s = (Inr u, s')"
  shows "\<exists>ss. map read_scene js = map Inr ss
     \<and> s' = s\<lparr>scenes := foldl (\<lambda>c x. AList.update (scene_id x) x c) (scenes s) (List.map_filter (\<lambda>a. a) ss)\<rparr>"
  using assms
proof (induction js arbitrary: s)
  case Nil
  then show ?case by (simp add: List.map_filter_simps)
next
  case (Cons j js)
  from Cons.prems obtain opt where o: "read_scene j = Inr opt"
    by (auto split: sum.splits)
  show ?case
  proof (cases opt)
    case None
    with o Cons.prems have r: "store_scenes js s = (Inr u, s')" by simp
    from Cons.IH [OF r] obtain ss where
      "map read_scene js = map Inr ss"
      "s' = s\<lparr>scenes := foldl (\<lambda>c x. AList.update (scene_id x) x c) (scenes s) (List.map_filter (\<lambda>a. a) ss)\<rparr>"
      by auto
    with o None have "map read_scene (j # js) = map Inr (None # ss)
      \<and> s' = s\<lparr>scenes := foldl (\<lambda>c x. AList.update (scene_id x) x c) (scenes s) (List.map_filter (\<lambda>a. a) (None # ss))\<rparr>"
      by (simp add: List.map_filter_simps)
    then show ?thesis by blast
  next
    case (Some x)
    with o Cons.prems have
      r: "store_scenes js (s\<lparr>scenes := AList.update (scene_id x) x (scenes s)\<rparr>) = (Inr u, s')"
      by simp
    from Cons.IH [OF r] obtain ss where
      "map read_scene js = map Inr ss"
      "s' = s\<lparr>scenes := foldl (\<lambda>c x. AList.update (scene_id x) x c) (AList.update (scene_id x) x (scenes s)) (List.map_filter (\<lambda>a. a) ss)\<rparr>"
      by auto
    with o Some have "map read_scene (j # js) = map Inr (Some x # ss)
      \<and> s' = s\<lparr>scenes := foldl (\<lambda>c x. AList.update (scene_id x) x c) (scenes s) (List.map_filter (\<lambda>a. a) (Some x # ss))\<rparr>"
      by (simp add: List.map_filter_simps)
    then show ?thesis by blast
  qed
qed

lemma map_of_foldl_update:
  "map_of (foldl (\<lambda>c x. AList.update (f x) x c) c xs) = map_of c ++ map_of (rev (map (\<lambda>x. (f x, x)) xs))"
proof (induction xs arbitrary: c)
  case Nil
  then show ?case by simp
next
  case (Cons x xs)
  show ?case
    by (simp add: Cons.IH update_conv' map_add_def fun_eq_iff split: option.splits)
qed

lemma request_status_wire:
  "\<exists>w. snd (request_status ds s) = s\<lparr>wire := wire s @ w\<rparr>"
proof (induction ds arbitrary: s)
  case Nil
  have "snd (request_status [] s) = s\<lparr>wire := wire s @ []\<rparr>" by simp
  then show ?case by blast
next
  case (Cons a ds)
  obtain k d where a: "a = (k, d)" by (cases a)
  show ?case
  proof (cases "zone d")
    case None
    with a Cons.IH [of s] show ?thesis by simp
  next
    case (Some z)
    obtain res s1 where ws: "write_object s (zone_status_request z) = (res, s1)"
      by (cases "write_object s (zone_status_request z)")
    with write_object_wire [of s "zone_status_request z"] obtain w where
      w: "s1 = s\<lparr>wire := wire s @ w\<rparr>"
      by auto
    show ?thesis
    proof (cases res)
      case (Inl e)
      with a Some w ws have "snd (request_status (a # ds) s) = s\<lparr>wire := wire s @ w\<rparr>"
        by simp
      then show ?thesis by blast
    next
      case (Inr u)
      from Cons.IH [of s1] w obtain w' where
        "snd (request_status ds s1) = s\<lparr>wire := wire s @ w @ w'\<rparr>"
        by auto
      with a Some ws Inr have "snd (request_status (a # ds) s) = s\<lparr>wire := wire s @ (w @ w')\<rparr>"
        by simp
      then show ?thesis by blast
    qed
  qed
qed

lemma load_devices_Inr:
  assumes "load_devices s = (Inr u, s')"
  shows "\<exists>r l ls dj body listed js ds.
      reader s = Some r \<and> exception r = None \<and> buffer r = l # ls \<and> json_loads l = Some dj
    \<and> getitem dj ''Body'' = Inr body \<and> getitem body ''Devices'' = Inr listed
    \<and> py_iter listed = Inr js \<and> map read_device js = map Inr ds
    \<and> s' = s\<lparr>wire := wire s @ [Sent (json_dumps (JObj [(''CommuniqueType'', JStr ''ReadRequest''),
                    (''Header'', JObj [(''Url'', JStr ''/device'')])]) @ crlf)],
             reader := Some (r\<lparr>buffer := ls\<rparr>),
             devices := foldl (\<lambda>c d. AList.update (device_id d) d c) (devices s) ds\<rparr>"
proof -
  let ?req = "JObj [(''CommuniqueType'', JStr ''ReadRequest''),
                    (''Header'', JObj [(''Url'', JStr ''/device'')])]"
  from assms obtain s1 s2 dj body listed js where
    w: "write_object s ?req = (Inr (), s1)" and
    r: "read_object s1 = (Inr dj, s2)" and
    g: "getitem dj ''Body'' = Inr body" "getitem body ''Devices'' = Inr listed"
       "py_iter listed = Inr js" and
    st: "store_devices js s2 = (Inr u, s')"
    by (auto simp: load_devices_def split: prod.splits sum.splits)
  from g(1) have nn: "dj \<noteq> JNull" by auto
  from write_object_Inr [OF w] obtain r0 where
    s1: "s1 = s\<lparr>wire := wire s @ [Sent (json_dumps ?req @ crlf)]\<rparr>"
    and r0: "reader s = Some r0" "exception r0 = None"
    by auto
  from read_object_Inr [OF r nn] s1 r0 obtain l ls where
    b: "buffer r0 = l # ls" "json_loads l = Some dj"
    and s2: "s2 = s1\<lparr>reader := Some (r0\<lparr>buffer := ls\<rparr>)\<rparr>"
    by auto
  from store_devices_Inr [OF st] obtain ds where
    ds: "map read_device js = map Inr ds"
    and s': "s' = s2\<lparr>devices := foldl (\<lambda>c d. AList.update (device_id d) d c) (devices s2) ds\<rparr>"
    by auto
  from s' s2 s1 have "s' = s\<lparr>wire := wire s @ [Sent (json_dumps ?req @ crlf)],
             reader := Some (r0\<lparr>buffer := ls\<rparr>),
             devices := foldl (\<lambda>c d. AList.update (device_id d) d c) (devices s) ds\<rparr>"
    by simp
  with r0 b g ds show ?thesis by blast
qed

lemma load_scenes_Inr:
  assumes "load_scenes s = (Inr u, s')"
  shows "\<exists>r l ls sj body listed js ss.
      reader s = Some r \<and> exception r = None \<and> buffer r = l # ls \<and> json_loads l = Some sj
    \<and> getitem sj ''Body'' = Inr body \<and> getitem body ''VirtualButtons'' = Inr listed
    \<and> py_iter listed = Inr js \<and> map read_scene js = map Inr ss
    \<and> s' = s\<lparr>wire := wire s @ [Sent (json_dumps (JObj [(''CommuniqueType'', JStr ''ReadRequest''),
                    (''Header'', JObj [(''Url'', JStr ''/virtualbutton'')])]) @ crlf)],
             reader := Some (r\<lparr>buffer := ls\<rparr>),
             scenes := foldl (\<lambda>c x. AList.update (scene_id x) x c) (scenes s) (List.map_filter (\<lambda>a. a) ss)\<rparr>"
proof -
  let ?req = "JObj [(''CommuniqueType'', JStr ''ReadRequest''),
                    (''Header'', JObj [(''Url'', JStr ''/virtualbutton'')])]"
  from assms obtain s1 s2 sj body listed js where
    w: "write_object s ?req = (Inr (), s1)" and
    r: "read_object s1 = (Inr sj, s2)" and
    g: "getitem sj ''Body'' = Inr body" "getitem body ''VirtualButtons'' = Inr listed"
       "py_iter listed = Inr js" and
    st: "store_scenes js s2 = (Inr u, s')"
    by (auto simp: load_scenes_def split: prod.splits sum.splits)
  from g(1) have nn: "sj \<noteq> JNull" by auto
  from write_object_Inr [OF w] obtain r0 where
    s1: "s1 = s\<lparr>wire := wire s @ [Sent (json_dumps ?req @ crlf)]\<rparr>"
    and r0: "reader s = Some r0" "exception r0 = None"
    by auto
  from read_object_Inr [OF r nn] s1 r0 obtain l ls where
    b: "buffer r0 = l # ls" "json_loads l = Some sj"
    and s2: "s2 = s1\<lparr>reader := Some (r0\<lparr>buffer := ls\<rparr>)\<rparr>"
    by auto
  from store_scenes_Inr [OF st] obtain ss where
    ss: "map read_scene js = map Inr ss"
    and s': "s' = s2\<lparr>scenes := foldl (\<lambda>c x. AList.update (scene_id x) x c) (scenes s2) (List.map_filter (\<lambda>a. a) ss)\<rparr>"
    by auto
  from s' s2 s1 have "s' = s\<lparr>wire := wire s @ [Sent (json_dumps ?req @ crlf)],
             reader := Some (r0\<lparr>buffer := ls\<rparr>),
             scenes := foldl (\<lambda>c x. AList.update (scene_id x) x c) (scenes s) (List.map_filter (\<lambda>a. a) ss)\<rparr>"
    by simp
  with r0 b g ss show ?thesis by blast
qed

lemma login_Inr:
  assumes "login net s = (Inr (), s')"
    and "\<not> (\<exists>r. reader s = Some r \<and> exception r = None \<and> \<not> at_eof r)"
  shows "\<exists>r l1 l2 rest dj body1 listed1 js ds sj body2 listed2 bs ss.
      net (hostname s) LEAP_PORT = Inr r \<and> buffer r = l1 # l2 # rest
    \<and> json_loads l1 = Some dj \<and> getitem dj ''Body'' = Inr body1
    \<and> getitem body1 ''Devices'' = Inr listed1 \<and> py_iter listed1 = Inr js
    \<and> map read_device js = map Inr ds
    \<and> json_loads l2 = Some sj \<and> getitem sj ''Body'' = Inr body2
    \<and> getitem body2 ''VirtualButtons'' = Inr listed2 \<and> py_iter listed2 = Inr bs
    \<and> map read_scene bs = map Inr ss
    \<and> devices s' = foldl (\<lambda>c d. AList.update (device_id d) d c) (devices s) ds
    \<and> scenes s' = foldl (\<lambda>c x. AList.update (scene_id x) x c) (scenes s) (List.map_filter (\<lambda>a. a) ss)
    \<and> logged_in s'"
proof -
  define s1 where "s1 = (case reader s of None \<Rightarrow> s
                   | Some r \<Rightarrow> s\<lparr>reader := None, wire := wire s @ [Closed]\<rparr>)"
  define s2 where "s2 = s1\<lparr>logged_in := False, wire := wire s1 @ [Open (hostname s1) LEAP_PORT]\<rparr>"
  have h1: "hostname s1 = hostname s" "devices s1 = devices s" "scenes s1 = scenes s"
    by (simp_all add: s1_def split: option.splits)
  have na: "\<not> (case reader s of None \<Rightarrow> False | Some r \<Rightarrow> exception r = None \<and> \<not> at_eof r)"
    using assms(2) by (auto split: option.splits)
  from assms(1) na have
    "(case net (hostname s2) LEAP_PORT of
              Inl e \<Rightarrow> (Inl e, s2)
            | Inr r \<Rightarrow>
           (case load_devices (s2\<lparr>reader := Some r\<rparr>) of
              (Inl e, s3) \<Rightarrow> (Inl e, s3)
            | (Inr u, s3) \<Rightarrow>
           (case load_scenes s3 of
              (Inl e, s4) \<Rightarrow> (Inl e, s4)
            | (Inr u, s4) \<Rightarrow>
           (case request_status (devices s4) s4 of
              (Inl e, s5) \<Rightarrow> (Inl e, s5)
            | (Inr u, s5) \<Rightarrow> (Inr (), s5\<lparr>logged_in := True\<rparr>))))) = (Inr (), s')"
    unfolding login_def s1_def s2_def Let_def by simp
  then obtain r s3 s4 s5 where
    n: "net (hostname s2) LEAP_PORT = Inr r" and
    ld: "load_devices (s2\<lparr>reader := Some r\<rparr>) = (Inr (), s3)" and
    ls: "load_scenes s3 = (Inr (), s4)" and
    rs: "request_status (devices s4) s4 = (Inr (), s5)" and
    s': "s' = s5\<lparr>logged_in := True\<rparr>"
    by (auto split: sum.splits prod.splits)
  from load_devices_Inr [OF ld] obtain l1 rest1 dj body1 listed1 js ds where
    d: "buffer r = l1 # rest1" "json_loads l1 = Some dj" "getitem dj ''Body'' = Inr body1"
       "getitem body1 ''Devices'' = Inr listed1" "py_iter listed1 = Inr js"
       "map read_device js = map Inr ds"
    and r3: "reader s3 = Some (r\<lparr>buffer := rest1\<rparr>)"
    and d3: "devices s3 = foldl (\<lambda>c d. AList.update (device_id d) d c) (devices s) ds"
    and c3: "scenes s3 = scenes s"
    by (auto simp: s2_def h1)
  from load_scenes_Inr [OF ls] r3 obtain l2 rest sj body2 listed2 bs ss where
    c: "rest1 = l2 # rest" "json_loads l2 = Some sj" "getitem sj ''Body'' = Inr body2"
       "getitem body2 ''VirtualButtons'' = Inr listed2" "py_iter listed2 = Inr bs"
       "map read_scene bs = map Inr ss"
    and d4: "devices s4 = devices s3"
    and c4: "scenes s4 = foldl (\<lambda>c x. AList.update (scene_id x) x c) (scenes s3) (List.map_filter (\<lambda>a. a) ss)"
    by auto
  from request_status_wire [of "devices s4" s4] rs obtain w where "s5 = s4\<lparr>wire := wire s4 @ w\<rparr>"
    by auto
  with s' d3 c3 d4 c4 have
    "devices s' = foldl (\<lambda>c d. AList.update (device_id d) d c) (devices s) ds"
    "scenes s' = foldl (\<lambda>c x. AList.update (scene_id x) x c) (scenes s) (List.map_filter (\<lambda>a. a) ss)"
    "logged_in s'"
    by simp_all
  moreover from n have "net (hostname s) LEAP_PORT = Inr r"
    by (simp add: s2_def h1)
  moreover from d(1) c(1) have "buffer r = l1 # l2 # rest" by simp
  ultimately show ?thesis using d(2-) c(2-) by blast
qed

text \<open>
  C1, as the code has it.  A login that does its work (the session held no live connection)
  and completes has read two lines from the new connection: the device list and the list
  of virtual buttons.  The device cache after it is the cache before it, overridden by the
  listed devices under their ids (a later entry of the list wins over an earlier one with
  the same id); the scene cache likewise with the programmed buttons.  Entries whose ids the
  hub did not list stay as they were: the caches are merged, not replaced.
\<close>

theorem login_merges_caches:
  assumes "login net s = (Inr (), s')"
    and "\<not> (\<exists>r. reader s = Some r \<and> exception r = None \<and> \<not> at_eof r)"
  shows "\<exists>r l1 l2 rest dj body1 listed1 js ds sj body2 listed2 bs ss.
      net (hostname s) LEAP_PORT = Inr r \<and> buffer r = l1 # l2 # rest
    \<and> json_loads l1 = Some dj \<and> getitem dj ''Body'' = Inr body1
    \<and> getitem body1 ''Devices'' = Inr listed1 \<and> py_iter listed1 = Inr js
    \<and> map read_device js = map Inr ds
    \<and> json_loads l2 = Some sj \<and> getitem sj ''Body'' = Inr body2
    \<and> getitem body2 ''VirtualButtons'' = Inr listed2 \<and> py_iter listed2 = Inr bs
    \<and> map read_scene bs = map Inr ss
    \<and> map_of (devices s') = map_of (devices s) ++ map_of (rev (map (\<lambda>d. (device_id d, d)) ds))
    \<and> map_of (scenes s') =
        map_of (scenes s) ++ map_of (rev (map (\<lambda>x. (scene_id x, x)) (List.map_filter id ss)))
    \<and> logged_in s'"
proof -
  from login_Inr [OF assms] obtain r l1 l2 rest dj body1 listed1 js ds sj body2 listed2 bs ss where
    a: "net (hostname s) LEAP_PORT = Inr r" "buffer r = l1 # l2 # rest"
      "json_loads l1 = Some dj" "getitem dj ''Body'' = Inr body1"
      "getitem body1 ''Devices'' = Inr listed1" "py_iter listed1 = Inr js"
      "map read_device js = map Inr ds"
      "json_loads l2 = Some sj" "getitem sj ''Body'' = Inr body2"
      "getitem body2 ''VirtualButtons'' = Inr listed2" "py_iter listed2 = Inr bs"
      "map read_scene bs = map Inr ss"
      "logged_in s'"
    and d: "devices s' = foldl (\<lambda>c d. AList.update (device_id d) d c) (devices s) ds"
    and c: "scenes s' = foldl (\<lambda>c x. AList.update (scene_id x) x c) (scenes s) (List.map_filter (\<lambda>a. a) ss)"
    by blast
  have "map_of (devices s') = map_of (devices s) ++ map_of (rev (map (\<lambda>d. (device_id d, d)) ds))"
    by (simp only: d map_of_foldl_update)
  moreover have "map_of (scenes s') =
        map_of (scenes s) ++ map_of (rev (map (\<lambda>x. (scene_id x, x)) (List.map_filter id ss)))"
    by (simp only: c map_of_foldl_update id_def)
  ultimately show ?thesis using a by blast
qed


theorem login_merges_caches_witness:
  "fst (login (hub_on 8081) stale_bridge) = Inr ()
   \<and> \<not> (\<exists>r. reader stale_bridge = Some r \<and> exception r = None \<and> \<not> at_eof r)
   \<and> (\<exists>r l1 l2 rest dj body1 listed1 js ds sj body2 listed2 bs ss.
      hub_on 8081 (hostname stale_bridge) LEAP_PORT = Inr r \<and> buffer r = l1 # l2 # rest
    \<and> json_loads l1 = Some dj \<and> getitem dj ''Body'' = Inr body1
    \<and> getitem body1 ''Devices'' = Inr listed1 \<and> py_iter listed1 = Inr js
    \<and> map read_device js = map Inr ds
    \<and> json_loads l2 = Some sj \<and> getitem sj ''Body'' = Inr body2
    \<and> getitem body2 ''VirtualButtons'' = Inr listed2 \<and> py_iter listed2 = Inr bs
    \<and> map read_scene bs = map Inr ss
    \<and> map_of (devices (snd (login (hub_on 8081) stale_bridge))) =
        map_of (devices stale_bridge) ++ map_of (rev (map (\<lambda>d. (device_id d, d)) ds))
    \<and> map_of (scenes (snd (login (hub_on 8081) stale_bridge))) =
        map_of (scenes stale_bridge)
          ++ map_of (rev (map (\<lambda>x. (scene_id x, x)) (List.map_filter id ss)))
    \<and> logged_in (snd (login (hub_on 8081) stale_bridge)))"
proof -
  have f: "fst (login (hub_on 8081) stale_bridge) = Inr ()"
    by code_simp
  then have h1: "login (hub_on 8081) stale_bridge = (Inr (), snd (login (hub_on 8081) stale_bridge))"
    by (simp add: prod_eq_iff)
  have h2: "\<not> (\<exists>r. reader stale_bridge = Some r \<and> exception r = None \<and> \<not> at_eof r)"
    by (simp add: stale_bridge_def closed_reader_def at_eof_def)
  from login_merges_caches [OF h1 h2] f h2 show ?thesis
    by blast
qed

text \<open>
  A session that lost its connection holds the remote 2 and the scene 7.  The hub now lists
  only the dimmer 5 and the buttons 1 and 2.  After the login the remote and the scene are
  still cached.
\<close>

theorem login_keeps_unlisted:
  "fst (login (hub_on 8081) stale_bridge) = Inr ()
   \<and> hub_on 8081 (hostname stale_bridge) LEAP_PORT = Inr fresh_reader
   \<and> buffer fresh_reader = [json_dumps device_list @ crlf, json_dumps button_list @ crlf]
   \<and> json_loads (json_dumps device_list @ crlf) = Some device_list
   \<and> device_list = JObj [(''Body'', JObj [(''Devices'', JArr [lamp_json])])]
   \<and> read_device lamp_json = Inr lamp
   \<and> device_id lamp = ''5''
   \<and> map_of (devices stale_bridge) ''2'' = Some pico
   \<and> map_of (devices (snd (login (hub_on 8081) stale_bridge))) ''2'' = Some pico
   \<and> map_of (scenes stale_bridge) ''7'' = Some old_scene
   \<and> map_of (scenes (snd (login (hub_on 8081) stale_bridge))) ''7'' = Some old_scene"
proof -
  have "fst (login (hub_on 8081) stale_bridge) = Inr ()"
    by code_simp
  moreover have "hub_on 8081 (hostname stale_bridge) LEAP_PORT = Inr fresh_reader"
    by (simp add: hub_on_def LEAP_PORT_def)
  moreover have "buffer fresh_reader = [json_dumps device_list @ crlf, json_dumps button_list @ crlf]"
    by (simp add: fresh_reader_def)
  moreover have "json_loads (json_dumps device_list @ crlf) = Some device_list"
    by code_simp
  moreover have "device_list = JObj [(''Body'', JObj [(''Devices'', JArr [lamp_json])])]"
    by (simp add: device_list_def)
  moreover have "read_device lamp_json = Inr lamp"
    by code_simp
  moreover have "device_id lamp = ''5''"
    by (simp add: lamp_def)
  moreover have "map_of (devices stale_bridge) ''2'' = Some pico"
    by (simp add: stale_bridge_def ready_bridge_def)
  moreover have "map_of (devices (snd (login (hub_on 8081) stale_bridge))) ''2'' = Some pico"
    by code_simp
  moreover have "map_of (scenes stale_bridge) ''7'' = Some old_scene"
    by (simp add: stale_bridge_def)
  moreover have "map_of (scenes (snd (login (hub_on 8081) stale_bridge))) ''7'' = Some old_scene"
    by code_simp
  ultimately show ?thesis by blast
qed

section \<open>The codec round trip\<close>

subsection \<open>Numbers\<close>

lemma of_char_digit: "(n::nat) < 10 \<Longrightarrow> (of_char (char_of (48 + n) :: char) :: nat) = 48 + n"
  by (simp add: of_char_of)

lemma is_digit_char_of: "(n::nat) < 10 \<Longrightarrow> is_digit (char_of (48 + n))"
  by (simp add: is_digit_def of_char_digit)

lemma decimal_digits: "list_all is_digit (decimal n)"
proof (induction n rule: decimal.induct)
  case (1 n)
  show ?case
  proof (cases "n < 10")
    case True
    then show ?thesis by (subst decimal.simps) (simp add: is_digit_char_of)
  next
    case False
    with 1 show ?thesis
      by (subst decimal.simps) (simp add: is_digit_char_of)
  qed
qed

lemma decimal_nonempty: "decimal n \<noteq> []"
  by (subst decimal.simps) simp

lemma char_of_48: "(n::nat) < 10 \<Longrightarrow> (char_of (48 + n) = CHR ''0'') = (n = 0)"
proof -
  assume n: "n < 10"
  have z: "(of_char CHR ''0'' :: nat) = 48" by simp
  have "(char_of (48 + n) = CHR ''0'') \<longleftrightarrow> (of_char (char_of (48 + n) :: char) :: nat) = of_char CHR ''0''"
    by (simp only: of_char_eq_iff)
  with n z show ?thesis by (simp add: of_char_digit)
qed

lemma decimal_0: "decimal 0 = ''0''"
proof -
  have "(char_of (48 + (0::nat)) = CHR ''0'')" using char_of_48 [of 0] by simp
  then show ?thesis by (subst decimal.simps) simp
qed

lemma hd_decimal: "(hd (decimal n) = CHR ''0'') = (n = 0)"
proof (induction n rule: decimal.induct)
  case (1 n)
  show ?case
  proof (cases "n < 10")
    case True
    then show ?thesis by (subst decimal.simps) (simp add: char_of_48)
  next
    case False
    then have "hd (decimal n) = hd (decimal (n div 10))"
      by (subst decimal.simps) (simp add: decimal_nonempty)
    with 1 False show ?thesis by auto
  qed
qed

lemma int_of_digits_snoc:
  "int_of_digits (ds @ [c]) = 10 * int_of_digits ds + (of_char c - 48)"
  by (simp add: int_of_digits_def)

lemma int_of_digits_decimal: "int_of_digits (decimal n) = n"
proof (induction n rule: decimal.induct)
  case (1 n)
  show ?case
  proof (cases "n < 10")
    case True
    then show ?thesis
      by (subst decimal.simps) (simp add: int_of_digits_def of_char_digit)
  next
    case False
    have m: "n mod 10 < 10" by simp
    from False 1 show ?thesis
      by (subst decimal.simps) (simp add: int_of_digits_snoc of_char_digit [OF m])
  qed
qed

lemma number_end_float_tail: "number_end rest \<Longrightarrow> \<not> float_tail rest"
  by (auto simp: number_end_def float_tail_def split: list.splits)

lemma takeWhile_digits:
  "list_all is_digit ds \<Longrightarrow> number_end rest \<Longrightarrow> takeWhile is_digit (ds @ rest) = ds"
  by (induction ds) (auto simp: number_end_def split: list.splits)

lemma dropWhile_digits:
  "list_all is_digit ds \<Longrightarrow> number_end rest \<Longrightarrow> dropWhile is_digit (ds @ rest) = rest"
  by (induction ds) (auto simp: number_end_def split: list.splits)

lemma minus_not_digit: "\<not> is_digit CHR ''-''"
  by (simp add: is_digit_def)

lemma hd_decimal_not_minus: "hd (decimal n) \<noteq> CHR ''-''"
  using decimal_digits [of n] decimal_nonempty [of n] minus_not_digit
  by (cases "decimal n") auto

lemma match_number_nat:
  assumes "number_end rest"
  shows "match_number (decimal n @ rest) = Some (JInt (int n), rest)"
proof -
  obtain c cs where d: "decimal n = c # cs"
    using decimal_nonempty [of n] by (cases "decimal n") auto
  have c: "c \<noteq> CHR ''-''" using hd_decimal_not_minus [of n] d by simp
  have t: "takeWhile is_digit (decimal n @ rest) = decimal n"
    and r: "dropWhile is_digit (decimal n @ rest) = rest"
    using assms by (simp_all add: takeWhile_digits dropWhile_digits decimal_digits)
  show ?thesis
  proof (cases "n = 0")
    case True
    then have z: "decimal n = ''0''" by (simp add: decimal_0)
    with assms True show ?thesis
      unfolding match_number_def Let_def
      by (simp add: number_end_float_tail int_of_digits_def number_end_def is_digit_def
          split: list.splits)
  next
    case False
    then have h: "hd (decimal n) \<noteq> CHR ''0''" by (simp add: hd_decimal)
    have "match_number ((c # cs) @ rest) = Some (JInt (int n), rest)"
      unfolding match_number_def Let_def
      using c t r h assms d
      by (simp add: number_end_float_tail int_of_digits_decimal [of n, unfolded d])
    with d show ?thesis by simp
  qed
qed

lemma match_number_neg:
  assumes "number_end rest" and "0 < n"
  shows "match_number (CHR ''-'' # decimal n @ rest) = Some (JInt (- int n), rest)"
proof -
  have t: "takeWhile is_digit (decimal n @ rest) = decimal n"
    and r: "dropWhile is_digit (decimal n @ rest) = rest"
    using assms by (simp_all add: takeWhile_digits dropWhile_digits decimal_digits)
  from assms have h: "hd (decimal n) \<noteq> CHR ''0''" by (simp add: hd_decimal)
  show ?thesis
    unfolding match_number_def Let_def
    using t r h assms
    by (simp add: number_end_float_tail int_of_digits_decimal decimal_nonempty)
qed

lemma match_number_int_repr:
  assumes "number_end rest"
  shows "match_number (int_repr i @ rest) = Some (JInt i, rest)"
proof (cases "i < 0")
  case True
  then have "0 < nat (- i)" by simp
  from match_number_neg [OF assms this] True show ?thesis
    by (simp add: int_repr_def)
next
  case False
  with match_number_nat [OF assms, of "nat i"] show ?thesis
    by (simp add: int_repr_def)
qed

subsection \<open>String literals\<close>

lemma hexval_hexdigit: "d < 16 \<Longrightarrow> hexval (hexdigit d) = Some d"
  by (auto simp: hexval_def hexdigit_def Let_def of_char_of)

lemma hex4_hexdigits:
  assumes "n < 256"
  shows "hex4 (hexdigit (n div 4096 mod 16)) (hexdigit (n div 256 mod 16))
           (hexdigit (n div 16 mod 16)) (hexdigit (n mod 16)) = Some n"
proof -
  have a: "hexval (hexdigit (n div 4096 mod 16)) = Some (n div 4096 mod 16)"
    by (rule hexval_hexdigit) simp
  have b: "hexval (hexdigit (n div 256 mod 16)) = Some (n div 256 mod 16)"
    by (rule hexval_hexdigit) simp
  have c: "hexval (hexdigit (n div 16 mod 16)) = Some (n div 16 mod 16)"
    by (rule hexval_hexdigit) simp
  have d: "hexval (hexdigit (n mod 16)) = Some (n mod 16)"
    by (rule hexval_hexdigit) simp
  from assms have e: "4096 * (n div 4096 mod 16) + 256 * (n div 256 mod 16)
      + 16 * (n div 16 mod 16) + n mod 16 = n"
    by simp
  show ?thesis
    by (simp only: hex4_def a b c d option.case e)
qed

lemma of_char_less_256: "(of_char (c::char) :: nat) < 256"
proof -
  have "(of_char c :: nat) mod 256 = of_char c" by (rule of_char_mod_256)
  then show ?thesis using mod_less_divisor [of 256 "of_char c :: nat"] by simp
qed

lemma scanstring_backslash:
  "scanstring (CHR 0x5C # e # tail) =
     (if e = CHR ''u'' then
        (case tail of
           h1 # h2 # h3 # h4 # rest \<Rightarrow>
             (case hex4 h1 h2 h3 h4 of
                None \<Rightarrow> None
              | Some n \<Rightarrow> if n < 256 then cons_result (char_of n) (scanstring rest) else None)
         | _ \<Rightarrow> None)
      else (case unescape e of None \<Rightarrow> None | Some ch \<Rightarrow> cons_result ch (scanstring tail)))"
  by simp

lemma scanstring_plain:
  "c \<noteq> CHR 0x22 \<Longrightarrow> c \<noteq> CHR 0x5C \<Longrightarrow> 32 \<le> (of_char c :: nat) \<Longrightarrow>
   scanstring (c # tail) = cons_result c (scanstring tail)"
  by simp

lemma scanstring_quote: "scanstring (CHR 0x22 # rest) = Some ([], rest)"
  by simp

lemma scanstring_escape:
  "scanstring (escape_char c @ tail) = cons_result c (scanstring tail)"
proof -
  let ?n = "of_char c :: nat"
  consider (short) "c = CHR 0x22 \<or> c = CHR 0x5C \<or> c = CHR 0x0A \<or> c = CHR 0x0D
      \<or> c = CHR 0x09 \<or> c = CHR 0x08 \<or> c = CHR 0x0C"
    | (plain) "c \<noteq> CHR 0x22" "c \<noteq> CHR 0x5C" "c \<noteq> CHR 0x0A" "c \<noteq> CHR 0x0D"
        "c \<noteq> CHR 0x09" "c \<noteq> CHR 0x08" "c \<noteq> CHR 0x0C" "32 \<le> ?n \<and> ?n \<le> 126"
    | (uni) "c \<noteq> CHR 0x22" "c \<noteq> CHR 0x5C" "c \<noteq> CHR 0x0A" "c \<noteq> CHR 0x0D"
        "c \<noteq> CHR 0x09" "c \<noteq> CHR 0x08" "c \<noteq> CHR 0x0C" "\<not> (32 \<le> ?n \<and> ?n \<le> 126)"
    by blast
  then show ?thesis
  proof cases
    case short
    then show ?thesis
      by (auto simp: escape_char_def unescape_def scanstring_backslash simp del: scanstring.simps)
  next
    case plain
    then have "escape_char c = [c]"
      by (simp add: escape_char_def)
    with plain show ?thesis
      by (simp add: scanstring_plain del: scanstring.simps)
  next
    case uni
    then have e: "escape_char c = [CHR 0x5C, CHR ''u'', hexdigit (?n div 4096 mod 16),
        hexdigit (?n div 256 mod 16), hexdigit (?n div 16 mod 16), hexdigit (?n mod 16)]"
      by (simp add: escape_char_def Let_def)
    have h: "hex4 (hexdigit (?n div 4096 mod 16)) (hexdigit (?n div 256 mod 16))
        (hexdigit (?n div 16 mod 16)) (hexdigit (?n mod 16)) = Some ?n"
      by (rule hex4_hexdigits [OF of_char_less_256])
    have lt: "?n < 256" by (rule of_char_less_256)
    have co: "char_of ?n = c" by simp
    have ne: "(CHR ''u'' = CHR ''u'') = True" by simp
    have "scanstring (CHR 0x5C # CHR ''u'' # hexdigit (?n div 4096 mod 16) #
        hexdigit (?n div 256 mod 16) # hexdigit (?n div 16 mod 16) # hexdigit (?n mod 16) # tail)
        = cons_result c (scanstring tail)"
      by (simp only: scanstring_backslash ne if_True list.case h option.case lt co)
    with e show ?thesis by simp
  qed
qed

lemma scanstring_escaped:
  "scanstring (concat (map escape_char s) @ CHR 0x22 # rest) = Some (s, rest)"
proof (induction s)
  case Nil
  show ?case by (simp add: scanstring_quote del: scanstring.simps)
next
  case (Cons c s)
  have "scanstring (escape_char c @ (concat (map escape_char s) @ CHR 0x22 # rest))
      = cons_result c (scanstring (concat (map escape_char s) @ CHR 0x22 # rest))"
    by (rule scanstring_escape)
  with Cons show ?case
    by (simp add: cons_result_def del: scanstring.simps)
qed

lemma scanstring_encoded:
  "scanstring (tl (encode_basestring_ascii s) @ rest) = Some (s, rest)"
  using scanstring_escaped [of s rest]
  by (simp add: encode_basestring_ascii_def del: scanstring.simps)

lemma hd_encoded: "encode_basestring_ascii s = CHR 0x22 # tl (encode_basestring_ascii s)"
  by (simp add: encode_basestring_ascii_def)

subsection \<open>Values\<close>

lemma skip_ws_start: "\<not> is_ws c \<Longrightarrow> skip_ws (c # cs) = c # cs"
  by (simp add: skip_ws_def)

lemma skip_ws_space: "skip_ws (CHR '' '' # cs) = skip_ws cs"
  by (simp add: skip_ws_def is_ws_def)

lemma digit_not_special:
  "is_digit c \<Longrightarrow> \<not> is_ws c \<and> c \<noteq> CHR '']'' \<and> c \<noteq> CHR 0x22 \<and> c \<noteq> CHR ''{''
     \<and> c \<noteq> CHR ''['' \<and> c \<noteq> CHR ''n'' \<and> c \<noteq> CHR ''t'' \<and> c \<noteq> CHR ''f''"
  by (auto simp: is_digit_def is_ws_def)

lemma int_repr_start: "\<exists>c cs. int_repr i = c # cs \<and> (c = CHR ''-'' \<or> is_digit c)"
proof (cases "i < 0")
  case True
  then show ?thesis by (simp add: int_repr_def)
next
  case False
  obtain c cs where d: "decimal (nat i) = c # cs"
    using decimal_nonempty [of "nat i"] by (cases "decimal (nat i)") auto
  with decimal_digits [of "nat i"] have "is_digit c" by simp
  with d False show ?thesis by (simp add: int_repr_def)
qed

lemma json_dumps_start:
  "\<exists>c cs. json_dumps v = c # cs \<and> \<not> is_ws c \<and> c \<noteq> CHR '']''"
proof (cases v)
  case (JInt i)
  from int_repr_start [of i] obtain c cs where
    "int_repr i = c # cs" "c = CHR ''-'' \<or> is_digit c" by blast
  with JInt digit_not_special [of c] show ?thesis
    by (auto simp: is_ws_def)
next
  case (JStr s)
  then show ?thesis by (simp add: encode_basestring_ascii_def is_ws_def)
qed (auto simp: is_ws_def)

lemma skip_ws_dumps: "skip_ws (json_dumps v @ r) = json_dumps v @ r"
  using json_dumps_start [of v] by (auto simp: skip_ws_start)

lemma dumps_list_start:
  "xs \<noteq> [] \<Longrightarrow> \<exists>c cs. dumps_list xs = c # cs \<and> \<not> is_ws c \<and> c \<noteq> CHR '']''"
proof (cases xs)
  case Nil
  assume "xs \<noteq> []"
  with Nil show ?thesis by simp
next
  case (Cons x xs')
  from json_dumps_start [of x] obtain c cs where "json_dumps x = c # cs" "\<not> is_ws c" "c \<noteq> CHR '']''"
    by blast
  with Cons show ?thesis by simp
qed

lemma dumps_dict_start:
  "kvs \<noteq> [] \<Longrightarrow> dumps_dict kvs = CHR 0x22 # tl (dumps_dict kvs)"
  by (cases kvs) (auto simp: encode_basestring_ascii_def)

lemma update_fresh: "k \<notin> fst ` set al \<Longrightarrow> AList.update k v al = al @ [(k, v)]"
  by (induction al) auto

lemma foldl_update_distinct:
  "distinct (map fst (acc @ kvs)) \<Longrightarrow>
   foldl (\<lambda>d kv. AList.update (fst kv) (snd kv) d) acc kvs = acc @ kvs"
proof (induction kvs arbitrary: acc)
  case Nil
  then show ?case by simp
next
  case (Cons kv kvs)
  from Cons.prems have f: "fst kv \<notin> fst ` set acc" by auto
  from Cons.prems have "distinct (map fst ((acc @ [kv]) @ kvs))" by simp
  from Cons.IH [OF this] f show ?case
    by (simp add: update_fresh)
qed

lemma dict_distinct: "distinct (map fst kvs) \<Longrightarrow> dict kvs = kvs"
  using foldl_update_distinct [of "[]" kvs] by (simp add: dict_def)

lemma number_end_delims:
  "number_end (CHR '','' # r)" "number_end (CHR '']'' # r)" "number_end (CHR ''}'' # r)"
  "number_end (CHR 0x0D # r)"
  by (simp_all add: number_end_def is_digit_def)

lemma scan_once_number:
  assumes "c = CHR ''-'' \<or> is_digit c"
  shows "scan_once (Suc m) (c # r) = match_number (c # r)"
proof -
  from assms digit_not_special [of c] have f: "c \<noteq> CHR 0x22" "c \<noteq> CHR ''{''" "c \<noteq> CHR ''[''"
    "c \<noteq> CHR ''n''" "c \<noteq> CHR ''t''" "c \<noteq> CHR ''f''"
    by auto
  have t: "take 4 (c # r) \<noteq> ''null''" "take 4 (c # r) \<noteq> ''true''" "take 5 (c # r) \<noteq> ''false''"
    using f by (auto simp: take_Cons')
  show ?thesis
    by (simp only: scan_once.simps list.case f t if_False)
qed

lemma scan_once_string:
  "scan_once (Suc m) (CHR 0x22 # r) =
     (case scanstring r of None \<Rightarrow> None | Some (s, rest) \<Rightarrow> Some (JStr s, rest))"
  by (simp del: scanstring.simps)

lemma scan_once_array:
  "skip_ws r = d # r' \<Longrightarrow>
   scan_once (Suc m) (CHR ''['' # r) =
     (if d = CHR '']'' then Some (JArr [], r')
      else (case JSONArray m (d # r') of
              None \<Rightarrow> None
            | Some (values, rest) \<Rightarrow> Some (JArr values, rest)))"
  by (simp del: scanstring.simps)

lemma scan_once_object:
  "skip_ws r = d # r' \<Longrightarrow>
   scan_once (Suc m) (CHR ''{'' # r) =
     (if d = CHR ''}'' then Some (JObj [], r')
      else if d = CHR 0x22 then
        (case JSONObject m r' of
           None \<Rightarrow> None
         | Some (pairs, rest) \<Rightarrow> Some (JObj (dict pairs), rest))
      else None)"
  by (simp del: scanstring.simps)

lemma JSONArray_Suc:
  "scan_once m cs = Some (v, r) \<Longrightarrow> skip_ws r = d # r' \<Longrightarrow>
   JSONArray (Suc m) cs =
     (if d = CHR '']'' then Some ([v], r')
      else if d = CHR '','' then
        (case JSONArray m (skip_ws r') of
           None \<Rightarrow> None
         | Some (vs, rest) \<Rightarrow> Some (v # vs, rest))
      else None)"
  by (simp del: scanstring.simps)

lemma JSONObject_Suc:
  "scanstring cs = Some (k, r) \<Longrightarrow> skip_ws r = CHR '':'' # r1 \<Longrightarrow>
   scan_once m (skip_ws r1) = Some (v, r2) \<Longrightarrow> skip_ws r2 = e # r3 \<Longrightarrow>
   JSONObject (Suc m) cs =
     (if e = CHR ''}'' then Some ([(k, v)], r3)
      else if e = CHR '','' then
        (case skip_ws r3 of
           [] \<Rightarrow> None
         | q # r4 \<Rightarrow>
             if q = CHR 0x22 then
               (case JSONObject m r4 of
                  None \<Rightarrow> None
                | Some (kvs, rest) \<Rightarrow> Some ((k, v) # kvs, rest))
             else None)
      else None)"
  by (simp del: scanstring.simps)

lemma scan_once_atoms:
  "scan_once (Suc m) (''null'' @ rest) = Some (JNull, rest)"
  "scan_once (Suc m) (''true'' @ rest) = Some (JBool True, rest)"
  "scan_once (Suc m) (''false'' @ rest) = Some (JBool False, rest)"
  by (simp_all del: scanstring.simps)

declare scan_once.simps [simp del] scanstring.simps [simp del]

lemma scan_once_dumps:
    "distinct_keys v \<Longrightarrow> number_end rest \<Longrightarrow> 2 * length (json_dumps v) \<le> n \<Longrightarrow>
     scan_once n (json_dumps v @ rest) = Some (v, rest)"
  and JSONArray_dumps:
    "xs \<noteq> [] \<Longrightarrow> distinct_keys_list xs \<Longrightarrow> 2 * length (dumps_list xs) + 1 \<le> n \<Longrightarrow>
     JSONArray n (dumps_list xs @ CHR '']'' # rest) = Some (xs, rest)"
  and JSONObject_dumps:
    "kvs \<noteq> [] \<Longrightarrow> distinct_keys_dict kvs \<Longrightarrow> 2 * length (dumps_dict kvs) \<le> n \<Longrightarrow>
     JSONObject n (tl (dumps_dict kvs) @ CHR ''}'' # rest) = Some (kvs, rest)"
proof (induction v and xs and kvs arbitrary: n rest and n rest and n rest
    rule: json_dumps_dumps_list_dumps_dict.induct)
  case 1
  then obtain m where "n = Suc m" by (cases n) auto
  then show ?case using scan_once_atoms(1) [of m rest] by simp
next
  case (2 b)
  then obtain m where "n = Suc m" by (cases n; cases b) auto
  then show ?case using scan_once_atoms(2,3) [of m rest] by (cases b) simp_all
next
  case (3 i)
  obtain c cs where ic: "int_repr i = c # cs" "c = CHR ''-'' \<or> is_digit c"
    using int_repr_start [of i] by blast
  with 3 obtain m where "n = Suc m" by (cases n) auto
  then have "scan_once n (int_repr i @ rest) = match_number (int_repr i @ rest)"
    using scan_once_number [OF ic(2), of m "cs @ rest"] ic(1) by simp
  with match_number_int_repr [OF "3.prems"(2), of i] show ?case by simp
next
  case (4 s)
  then obtain m where "n = Suc m" by (cases n) (auto simp: encode_basestring_ascii_def)
  moreover have "encode_basestring_ascii s @ rest
      = CHR 0x22 # (tl (encode_basestring_ascii s) @ rest)"
    by (simp add: encode_basestring_ascii_def)
  ultimately have "scan_once n (encode_basestring_ascii s @ rest) =
      (case scanstring (tl (encode_basestring_ascii s) @ rest) of
         None \<Rightarrow> None | Some (s, rest) \<Rightarrow> Some (JStr s, rest))"
    by (simp only: scan_once_string)
  then show ?case by (simp add: scanstring_encoded)
next
  case (5 xs)
  from "5.prems"(3) obtain m where n: "n = Suc m" by (cases n) auto
  show ?case
  proof (cases "xs = []")
    case True
    have "skip_ws (CHR '']'' # rest) = CHR '']'' # rest"
      by (simp add: skip_ws_start is_ws_def)
    from scan_once_array [OF this, of m] True n show ?thesis by simp
  next
    case False
    from dumps_list_start [OF False] obtain d r' where
      d: "dumps_list xs = d # r'" "\<not> is_ws d" "d \<noteq> CHR '']''" by blast
    then have "skip_ws (dumps_list xs @ CHR '']'' # rest) = d # (r' @ CHR '']'' # rest)"
      by (simp add: skip_ws_start)
    from scan_once_array [OF this, of m] d(3)
    have a: "scan_once (Suc m) (CHR ''['' # dumps_list xs @ CHR '']'' # rest) =
        (case JSONArray m (d # r' @ CHR '']'' # rest) of
              None \<Rightarrow> None
            | Some (values, rest) \<Rightarrow> Some (JArr values, rest))"
      by simp
    from "5.prems"(3) n have "2 * length (dumps_list xs) + 1 \<le> m" by simp
    with "5.IH" [OF False, of m rest] "5.prems"(1)
    have "JSONArray m (dumps_list xs @ CHR '']'' # rest) = Some (xs, rest)" by simp
    with a d(1) n show ?thesis by simp
  qed
next
  case (6 kvs)
  from "6.prems"(3) obtain m where n: "n = Suc m" by (cases n) auto
  show ?case
  proof (cases "kvs = []")
    case True
    have "skip_ws (CHR ''}'' # rest) = CHR ''}'' # rest"
      by (simp add: skip_ws_start is_ws_def)
    from scan_once_object [OF this, of m] True n show ?thesis by simp
  next
    case False
    from dumps_dict_start [OF False] obtain t where t: "dumps_dict kvs = CHR 0x22 # t" ..
    have "skip_ws (CHR 0x22 # t @ CHR ''}'' # rest) = CHR 0x22 # (t @ CHR ''}'' # rest)"
      by (simp add: skip_ws_start is_ws_def)
    from scan_once_object [OF this, of m]
    have a: "scan_once (Suc m) (CHR ''{'' # CHR 0x22 # t @ CHR ''}'' # rest) =
        (case JSONObject m (t @ CHR ''}'' # rest) of
           None \<Rightarrow> None
         | Some (pairs, rest) \<Rightarrow> Some (JObj (dict pairs), rest))"
      by simp
    from "6.prems"(3) n have "2 * length (dumps_dict kvs) \<le> m" by simp
    with "6.IH" [OF False, of m rest] "6.prems"(1)
    have "JSONObject m (t @ CHR ''}'' # rest) = Some (kvs, rest)" by (simp add: t)
    with a n t "6.prems"(1) show ?thesis by (simp add: dict_distinct)
  qed
next
  case 7
  then show ?case by simp
next
  case (8 x xs)
  from "8.prems"(3) obtain m where n: "n = Suc m" by (cases n) auto
  from "8.prems"(2) have dx: "distinct_keys x" and dxs: "distinct_keys_list xs" by simp_all
  show ?case
  proof (cases "xs = []")
    case True
    from "8.prems"(3) n True have "2 * length (json_dumps x) \<le> m" by simp
    from "8.IH"(1) [OF dx number_end_delims(2) this, of rest]
    have s: "scan_once m (json_dumps x @ CHR '']'' # rest) = Some (x, CHR '']'' # rest)" .
    have w: "skip_ws (CHR '']'' # rest) = CHR '']'' # rest"
      by (simp add: skip_ws_start is_ws_def)
    from JSONArray_Suc [OF s w] True n show ?thesis by simp
  next
    case False
    let ?tail = "dumps_list xs @ CHR '']'' # rest"
    from "8.prems"(3) n False have l: "2 * length (json_dumps x) \<le> m"
      "2 * length (dumps_list xs) + 1 \<le> m" by simp_all
    from "8.IH"(1) [OF dx number_end_delims(1) l(1), of "CHR '' '' # ?tail"]
    have s: "scan_once m (json_dumps x @ CHR '','' # CHR '' '' # ?tail)
        = Some (x, CHR '','' # CHR '' '' # ?tail)" .
    have w: "skip_ws (CHR '','' # CHR '' '' # ?tail) = CHR '','' # CHR '' '' # ?tail"
      by (simp add: skip_ws_start is_ws_def)
    from dumps_list_start [OF False] have w2: "skip_ws (CHR '' '' # ?tail) = ?tail"
      by (auto simp: skip_ws_space skip_ws_start)
    from "8.IH"(2) [OF False False dxs l(2), of rest]
    have r: "JSONArray m ?tail = Some (xs, rest)" .
    from JSONArray_Suc [OF s w] w2 r
    have "JSONArray (Suc m) (json_dumps x @ CHR '','' # CHR '' '' # ?tail) = Some (x # xs, rest)"
      by simp
    with False n show ?thesis by simp
  qed
next
  case 9
  then show ?case by simp
next
  case (10 k v kvs)
  from "10.prems"(3) obtain m where n: "n = Suc m" by (cases n) auto
  from "10.prems"(2) have dv: "distinct_keys v" and dkvs: "distinct_keys_dict kvs" by simp_all
  let ?key = "tl (encode_basestring_ascii k)"
  have len_key: "length (encode_basestring_ascii k) = Suc (length ?key)"
    by (simp add: encode_basestring_ascii_def)
  show ?case
  proof (cases "kvs = []")
    case True
    let ?after = "CHR ''}'' # rest"
    have k: "scanstring (?key @ CHR '':'' # CHR '' '' # json_dumps v @ ?after)
        = Some (k, CHR '':'' # CHR '' '' # json_dumps v @ ?after)"
      by (rule scanstring_encoded)
    have w1: "skip_ws (CHR '':'' # CHR '' '' # json_dumps v @ ?after)
        = CHR '':'' # CHR '' '' # json_dumps v @ ?after"
      by (simp add: skip_ws_start is_ws_def)
    have w2: "skip_ws (CHR '' '' # json_dumps v @ ?after) = json_dumps v @ ?after"
      by (simp add: skip_ws_space skip_ws_dumps)
    from "10.prems"(3) n have "2 * length (json_dumps v) \<le> m" by simp
    from "10.IH"(1) [OF dv number_end_delims(3) this, of rest] w2
    have s: "scan_once m (skip_ws (CHR '' '' # json_dumps v @ ?after)) = Some (v, ?after)"
      by simp
    have w3: "skip_ws ?after = ?after"
      by (simp add: skip_ws_start is_ws_def)
    from JSONObject_Suc [OF k w1 s w3]
    have "JSONObject (Suc m) (?key @ CHR '':'' # CHR '' '' # json_dumps v @ ?after)
        = Some ([(k, v)], rest)"
      by simp
    with True n show ?thesis
      by (simp add: encode_basestring_ascii_def)
  next
    case False
    from dumps_dict_start [OF False] obtain t where t: "dumps_dict kvs = CHR 0x22 # t" ..
    let ?tail = "t @ CHR ''}'' # rest"
    let ?after = "CHR '','' # CHR '' '' # CHR 0x22 # ?tail"
    have k: "scanstring (?key @ CHR '':'' # CHR '' '' # json_dumps v @ ?after)
        = Some (k, CHR '':'' # CHR '' '' # json_dumps v @ ?after)"
      by (rule scanstring_encoded)
    have w1: "skip_ws (CHR '':'' # CHR '' '' # json_dumps v @ ?after)
        = CHR '':'' # CHR '' '' # json_dumps v @ ?after"
      by (simp add: skip_ws_start is_ws_def)
    have w2: "skip_ws (CHR '' '' # json_dumps v @ ?after) = json_dumps v @ ?after"
      by (simp add: skip_ws_space skip_ws_dumps)
    from "10.prems"(3) n False have l: "2 * length (json_dumps v) \<le> m"
      "2 * length (dumps_dict kvs) \<le> m" by simp_all
    from "10.IH"(1) [OF dv number_end_delims(1) l(1), of "CHR '' '' # CHR 0x22 # ?tail"] w2
    have s: "scan_once m (skip_ws (CHR '' '' # json_dumps v @ ?after)) = Some (v, ?after)"
      by simp
    have w3: "skip_ws ?after = ?after"
      by (simp add: skip_ws_start is_ws_def)
    have w4: "skip_ws (CHR '' '' # CHR 0x22 # ?tail) = CHR 0x22 # ?tail"
      by (simp add: skip_ws_space skip_ws_start is_ws_def)
    from "10.IH"(2) [OF False False dkvs l(2), of rest]
    have r: "JSONObject m ?tail = Some (kvs, rest)" by (simp add: t)
    from JSONObject_Suc [OF k w1 s w3] w4 r
    have "JSONObject (Suc m) (?key @ CHR '':'' # CHR '' '' # json_dumps v @ ?after)
        = Some ((k, v) # kvs, rest)"
      by simp
    moreover have "tl (dumps_dict ((k, v) # kvs)) @ CHR ''}'' # rest
        = ?key @ CHR '':'' # CHR '' '' # json_dumps v @ ?after"
      using False by (simp add: encode_basestring_ascii_def t)
    ultimately show ?thesis using n by simp
  qed
qed

text \<open>A line as \<^verbatim>\<open>_write_object\<close> builds it decodes to the value it was built from.  The
  bound on the nesting that \<open>json_loads\<close> starts with is enough for it.\<close>

lemma json_loads_dumps:
  assumes "distinct_keys v"
  shows "json_loads (json_dumps v @ crlf) = Some v"
proof -
  let ?s = "json_dumps v @ crlf"
  have w: "skip_ws ?s = ?s" by (rule skip_ws_dumps)
  have e: "number_end crlf" by (simp add: crlf_def number_end_delims)
  have l: "2 * length (json_dumps v) \<le> Suc (2 * length ?s)" by simp
  have p: "scan_once (Suc (2 * length ?s)) ?s = Some (v, crlf)"
    using assms e l by (rule scan_once_dumps)
  have t: "skip_ws crlf = []" by (simp add: skip_ws_def crlf_def is_ws_def)
  show ?thesis
    unfolding json_loads_def by (simp only: w p t option.case prod.case) simp
qed

text \<open>The requests the client builds are such values.\<close>

lemma requests_distinct_keys:
  "distinct_keys (zone_status_request z)"
  "distinct_keys v \<Longrightarrow> distinct_keys (go_to_level z v)"
  "distinct_keys (press_and_release sid)"
  by (simp_all add: zone_status_request_def go_to_level_def press_and_release_def)

lemma write_object_sends:
  "reader s = Some w \<Longrightarrow>
   wire (snd (write_object s obj)) = wire s @ [Sent (json_dumps obj @ crlf)]"
  by (simp add: write_object_def crlf_def Let_def split: option.splits)

text \<open>
  C9.  Let \<open>msg\<close> be a message (any value whose dictionaries have distinct keys, as every
  Python dictionary has).  If \<^verbatim>\<open>_write_object\<close> on a connected session sends the line
  \<open>line\<close> for it, and that line is the next one a healthy reader returns, then
  \<^verbatim>\<open>_read_object\<close> returns \<open>msg\<close> itself: the same \<^verbatim>\<open>CommuniqueType\<close>, \<^verbatim>\<open>Header\<close> and
  \<^verbatim>\<open>Body\<close>.
\<close>

theorem write_then_read:
  assumes "distinct_keys msg"
    and "reader a = Some w"
    and "wire (snd (write_object a msg)) = wire a @ [Sent line]"
    and "reader b = Some r" and "exception r = None" and "buffer r = line # rest"
  shows "read_object b = (Inr msg, b\<lparr>reader := Some (r\<lparr>buffer := rest\<rparr>)\<rparr>)"
proof -
  from write_object_sends [OF assms(2), of msg] assms(3)
  have l: "line = json_dumps msg @ crlf" by simp
  then have ne: "line \<noteq> []" by (simp add: crlf_def)
  from l json_loads_dumps [OF assms(1)] have d: "json_loads line = Some msg" by simp
  from assms(4-6) ne d show ?thesis
    by (simp add: read_object_def readline_def)
qed

theorem write_then_read_witness:
  "distinct_keys (go_to_level ''3'' (JInt 100))
   \<and> reader ready_bridge = Some idle_reader
   \<and> wire (snd (write_object ready_bridge (go_to_level ''3'' (JInt 100))))
       = wire ready_bridge @ [Sent (json_dumps (go_to_level ''3'' (JInt 100)) @ crlf)]
   \<and> reader echo_bridge = Some echo_reader \<and> exception echo_reader = None
   \<and> buffer echo_reader = (json_dumps (go_to_level ''3'' (JInt 100)) @ crlf) # []
   \<and> read_object echo_bridge =
       (Inr (go_to_level ''3'' (JInt 100)),
        echo_bridge\<lparr>reader := Some (echo_reader\<lparr>buffer := []\<rparr>)\<rparr>)"
proof -
  have a1: "distinct_keys (go_to_level ''3'' (JInt 100))"
    by (simp add: requests_distinct_keys)
  have a2: "reader ready_bridge = Some idle_reader"
    by (simp add: ready_bridge_def)
  have a3: "wire (snd (write_object ready_bridge (go_to_level ''3'' (JInt 100))))
       = wire ready_bridge @ [Sent (json_dumps (go_to_level ''3'' (JInt 100)) @ crlf)]"
    using a2 by (rule write_object_sends)
  have a4: "reader echo_bridge = Some echo_reader"
    by (simp add: echo_bridge_def)
  have a5: "exception echo_reader = None"
    by (simp add: echo_reader_def)
  have a6: "buffer echo_reader = (json_dumps (go_to_level ''3'' (JInt 100)) @ crlf) # []"
    by (simp add: echo_reader_def)
  from write_then_read [OF a1 a2 a3 a4 a5 a6] a1 a2 a3 a4 a5 a6 show ?thesis
    by blast
qed

subsection \<open>The bound on nesting\<close>

text \<open>Every successful scan consumes input, so the bound \<open>json_loads\<close> starts with is
  never the reason for a failure: any larger bound gives the same result.\<close>

lemma cons_result_Some:
  "cons_result c x = Some (s, r) \<Longrightarrow> \<exists>s'. x = Some (s', r) \<and> s = c # s'"
  by (auto simp: cons_result_def split: option.splits)

lemma scanstring_step:
  assumes "scanstring (c # t) = Some (s, r)"
  shows "r = t \<or> (\<exists>t' s'. length t' \<le> length t \<and> scanstring t' = Some (s', r))"
proof (cases "c = CHR 0x22")
  case True
  with assms show ?thesis by (simp add: scanstring.simps)
next
  case False
  note nq = this
  show ?thesis
  proof (cases "c = CHR 0x5C")
    case False
    with nq assms have "cons_result c (scanstring t) = Some (s, r)"
      by (simp add: scanstring.simps split: if_splits)
    from cons_result_Some [OF this] show ?thesis by auto
  next
    case True
    with assms obtain e es where t: "t = e # es"
      by (cases t) (auto simp: scanstring.simps)
    show ?thesis
    proof (cases "e = CHR ''u''")
      case False
      with True assms t obtain ch where "cons_result ch (scanstring es) = Some (s, r)"
        by (auto simp: scanstring.simps split: option.splits)
      from cons_result_Some [OF this] obtain s' where "scanstring es = Some (s', r)" by blast
      moreover have "length es \<le> length t" using t by simp
      ultimately show ?thesis by blast
    next
      case u: True
      with True assms t have "\<exists>h1 h2 h3 h4 rest (n::nat). es = h1 # h2 # h3 # h4 # rest
          \<and> cons_result (char_of n) (scanstring rest) = Some (s, r)"
        by (auto simp: scanstring.simps split: list.splits option.splits if_splits)
      then obtain h1 h2 h3 h4 rest and n :: nat where
        es: "es = h1 # h2 # h3 # h4 # rest" and
        c: "cons_result (char_of n) (scanstring rest) = Some (s, r)"
        by blast
      from cons_result_Some [OF c] obtain s' where "scanstring rest = Some (s', r)" by blast
      moreover have "length rest \<le> length t" using t es by simp
      ultimately show ?thesis by blast
    qed
  qed
qed

lemma scanstring_shorter: "scanstring cs = Some (s, r) \<Longrightarrow> length r < length cs"
proof (induction "length cs" arbitrary: cs s rule: less_induct)
  case less
  from less.prems obtain c t where cs: "cs = c # t"
    by (cases cs) (auto simp: scanstring.simps)
  from scanstring_step [OF less.prems [unfolded cs]] show ?case
  proof
    assume "r = t"
    with cs show ?thesis by simp
  next
    assume "\<exists>t' s'. length t' \<le> length t \<and> scanstring t' = Some (s', r)"
    then obtain t' s' where l: "length t' \<le> length t" and s: "scanstring t' = Some (s', r)"
      by blast
    from l cs have "length t' < length cs" by simp
    from less.hyps [OF this s] l cs show ?thesis by simp
  qed
qed

lemma skip_ws_length: "length (skip_ws cs) \<le> length cs"
  by (simp add: skip_ws_def length_dropWhile_le)

lemma skip_ws_Cons_length: "skip_ws r = d # r' \<Longrightarrow> length r' < length r"
  using skip_ws_length [of r] by simp

lemma match_number_shorter: "match_number cs = Some (v, r) \<Longrightarrow> length r < length cs"
proof -
  assume a: "match_number cs = Some (v, r)"
  define neg where "neg = (case cs of [] \<Rightarrow> False | c # _ \<Rightarrow> c = CHR ''-'')"
  define cs1 where "cs1 = (if neg then tl cs else cs)"
  define ds where "ds = takeWhile is_digit cs1"
  define rest where "rest = dropWhile is_digit cs1"
  have c: "cs1 = ds @ rest" by (simp add: ds_def rest_def)
  have l: "length cs1 \<le> length cs" by (simp add: cs1_def)
  from a have ne: "ds \<noteq> []" and r: "r = (if hd ds = CHR ''0'' then tl ds @ rest else rest)"
    unfolding match_number_def Let_def neg_def [symmetric] cs1_def [symmetric]
      ds_def [symmetric] rest_def [symmetric]
    by (auto split: if_splits)
  from ne r c have "length r < length cs1" by (cases ds) auto
  with l show ?thesis by simp
qed

lemma take_literal_shorter:
  "take k cs = lit \<Longrightarrow> lit \<noteq> [] \<Longrightarrow> length (drop k cs) < length cs"
  by (cases k; cases cs) auto

lemma scan_once_shorter:
    "scan_once n cs = Some (v, r) \<Longrightarrow> length r < length cs"
  and JSONArray_shorter:
    "JSONArray n cs = Some (vs, r) \<Longrightarrow> length r < length cs"
  and JSONObject_shorter:
    "JSONObject n cs = Some (kvs, r) \<Longrightarrow> length r < length cs"
proof (induction n cs and n cs and n cs arbitrary: v r and vs r and kvs r
    rule: scan_once_JSONArray_JSONObject.induct)
  case (1 cs)
  then show ?case by (simp add: scan_once.simps)
next
  case (2 n cs)
  from "2.prems" obtain c t where cs: "cs = c # t"
    by (cases cs) (auto simp: scan_once.simps)
  consider (str) "c = CHR 0x22" | (obj) "c \<noteq> CHR 0x22" "c = CHR ''{''"
    | (arr) "c \<noteq> CHR 0x22" "c \<noteq> CHR ''{''" "c = CHR ''[''"
    | (atom) "c \<noteq> CHR 0x22" "c \<noteq> CHR ''{''" "c \<noteq> CHR ''[''"
    by blast
  then show ?case
  proof cases
    case str
    with "2.prems" cs obtain s where "scanstring t = Some (s, r)"
      by (auto simp: scan_once.simps split: option.splits)
    from scanstring_shorter [OF this] cs show ?thesis by simp
  next
    case obj
    with "2.prems" cs obtain d r' where w: "skip_ws t = d # r'"
      by (cases "skip_ws t") (auto simp: scan_once.simps)
    from skip_ws_Cons_length [OF w] have l: "length r' < length t" .
    show ?thesis
    proof (cases "d = CHR ''}''")
      case True
      with "2.prems" cs obj w l show ?thesis by (simp add: scan_once.simps)
    next
      case False
      with "2.prems" cs obj w obtain pairs where d: "d = CHR 0x22"
        and j: "JSONObject n r' = Some (pairs, r)"
        by (auto simp: scan_once.simps split: if_splits option.splits)
      from "2.IH"(1) [OF cs obj w False d j] l cs show ?thesis by simp
    qed
  next
    case arr
    with "2.prems" cs obtain d r' where w: "skip_ws t = d # r'"
      by (cases "skip_ws t") (auto simp: scan_once.simps)
    from skip_ws_Cons_length [OF w] have l: "length r' < length t" .
    show ?thesis
    proof (cases "d = CHR '']''")
      case True
      with "2.prems" cs arr w l show ?thesis by (simp add: scan_once.simps)
    next
      case False
      with "2.prems" cs arr w obtain vals where
        j: "JSONArray n (d # r') = Some (vals, r)"
        by (auto simp: scan_once.simps split: if_splits option.splits)
      from "2.IH"(2) [OF cs arr w False j] l cs show ?thesis by simp
    qed
  next
    case atom
    with "2.prems" cs have
      "(take 4 cs = ''null'' \<and> r = drop 4 cs) \<or> (take 4 cs = ''true'' \<and> r = drop 4 cs)
        \<or> (take 5 cs = ''false'' \<and> r = drop 5 cs) \<or> match_number cs = Some (v, r)"
      by (auto simp: scan_once.simps split: if_splits)
    then show ?thesis
      using take_literal_shorter [of 4 cs "''null''"] take_literal_shorter [of 4 cs "''true''"]
        take_literal_shorter [of 5 cs "''false''"] match_number_shorter [of cs v r]
      by auto
  qed
next
  case (3 cs)
  then show ?case by (simp add: scan_once.simps)
next
  case (4 n cs)
  from "4.prems" obtain x y where s: "scan_once n cs = Some (x, y)"
    by (auto simp: scan_once.simps split: option.splits)
  from "4.IH"(1) [OF s] have ly: "length y < length cs" .
  from "4.prems" s obtain d r' where w: "skip_ws y = d # r'"
    by (cases "skip_ws y") (auto simp: scan_once.simps)
  from skip_ws_Cons_length [OF w] have l: "length r' < length y" .
  show ?case
  proof (cases "d = CHR '']''")
    case True
    with "4.prems" s w l ly show ?thesis by (simp add: scan_once.simps)
  next
    case False
    with "4.prems" s w obtain vs' where d: "d = CHR '',''"
      and j: "JSONArray n (skip_ws r') = Some (vs', r)"
      by (auto simp: scan_once.simps split: if_splits option.splits)
    from "4.IH"(2) [OF s refl w False d j] skip_ws_length [of r'] l ly show ?thesis by simp
  qed
next
  case (5 cs)
  then show ?case by (simp add: scan_once.simps)
next
  case (6 n cs)
  from "6.prems" obtain k y where k: "scanstring cs = Some (k, y)"
    by (auto simp: scan_once.simps split: option.splits)
  from scanstring_shorter [OF k] have ly: "length y < length cs" .
  from "6.prems" k obtain d r1 where w1: "skip_ws y = d # r1"
    by (cases "skip_ws y") (auto simp: scan_once.simps)
  from "6.prems" k w1 have d: "\<not> d \<noteq> CHR '':''"
    by (auto simp: scan_once.simps split: if_splits)
  from skip_ws_Cons_length [OF w1] have l1: "length r1 < length y" .
  from "6.prems" k w1 d obtain x r2 where s: "scan_once n (skip_ws r1) = Some (x, r2)"
    by (auto simp: scan_once.simps split: option.splits)
  from "6.IH"(1) [OF k refl w1 d s] skip_ws_length [of r1]
  have l2: "length r2 < length r1" by simp
  from "6.prems" k w1 d s obtain e r3 where w3: "skip_ws r2 = e # r3"
    by (cases "skip_ws r2") (auto simp: scan_once.simps)
  from skip_ws_Cons_length [OF w3] have l3: "length r3 < length r2" .
  show ?case
  proof (cases "e = CHR ''}''")
    case True
    with "6.prems" k w1 d s w3 have "r = r3" by (simp add: scan_once.simps)
    with l3 l2 l1 ly show ?thesis by simp
  next
    case False
    with "6.prems" k w1 d s w3 obtain q r4 kvs' where e: "e = CHR '',''"
      and w4: "skip_ws r3 = q # r4" and q: "q = CHR 0x22"
      and j: "JSONObject n r4 = Some (kvs', r)"
      by (auto simp: scan_once.simps split: if_splits option.splits list.splits)
    from skip_ws_Cons_length [OF w4] have l4: "length r4 < length r3" .
    from "6.IH"(2) [OF k refl w1 d s refl w3 False e w4 q j] l4 l3 l2 l1 ly
    show ?thesis by simp
  qed
qed

lemma scan_once_fuel_step:
    "2 * length cs + 1 \<le> n \<Longrightarrow> scan_once (Suc n) cs = scan_once n cs"
  and JSONArray_fuel_step:
    "2 * length cs + 2 \<le> n \<Longrightarrow> JSONArray (Suc n) cs = JSONArray n cs"
  and JSONObject_fuel_step:
    "2 * length cs + 1 \<le> n \<Longrightarrow> JSONObject (Suc n) cs = JSONObject n cs"
proof (induction n cs and n cs and n cs rule: scan_once_JSONArray_JSONObject.induct)
  case (1 cs)
  then show ?case by simp
next
  case (2 n cs)
  show ?case
  proof (cases cs)
    case Nil
    then show ?thesis by (simp add: scan_once.simps)
  next
    case (Cons c t)
    consider (obj) "c \<noteq> CHR 0x22" "c = CHR ''{''"
      | (arr) "c \<noteq> CHR 0x22" "c \<noteq> CHR ''{''" "c = CHR ''[''"
      | (other) "c = CHR 0x22 \<or> (c \<noteq> CHR ''{'' \<and> c \<noteq> CHR ''['')"
      by blast
    then show ?thesis
    proof cases
      case obj
      show ?thesis
      proof (cases "skip_ws t")
        case Nil
        with Cons obj show ?thesis by (simp add: scan_once.simps)
      next
        case w: (Cons d r')
        show ?thesis
        proof (cases "d \<noteq> CHR ''}'' \<and> d = CHR 0x22")
          case True
          from skip_ws_Cons_length [OF w] "2.prems" Cons have "2 * length r' + 1 \<le> n" by simp
          from "2.IH"(1) [OF Cons obj w _ _ this] True
          have "JSONObject (Suc n) r' = JSONObject n r'" by simp
          with Cons obj w True show ?thesis by (simp add: scan_once.simps(2))
        next
          case False
          with Cons obj w show ?thesis by (auto simp: scan_once.simps(2))
        qed
      qed
    next
      case arr
      show ?thesis
      proof (cases "skip_ws t")
        case Nil
        with Cons arr show ?thesis by (simp add: scan_once.simps)
      next
        case w: (Cons d r')
        show ?thesis
        proof (cases "d = CHR '']''")
          case True
          with Cons arr w show ?thesis by (simp add: scan_once.simps(2))
        next
          case False
          from skip_ws_Cons_length [OF w] "2.prems" Cons
          have "2 * length (d # r') + 2 \<le> n" by simp
          from "2.IH"(2) [OF Cons arr w False this]
          have "JSONArray (Suc n) (d # r') = JSONArray n (d # r')" .
          with Cons arr w False show ?thesis by (simp add: scan_once.simps(2))
        qed
      qed
    next
      case other
      with Cons show ?thesis by (auto simp: scan_once.simps(2))
    qed
  qed
next
  case (3 cs)
  then show ?case by simp
next
  case (4 n cs)
  from "4.prems" have "2 * length cs + 1 \<le> n" by simp
  from "4.IH"(1) [OF this] have s: "scan_once (Suc n) cs = scan_once n cs" .
  show ?case
  proof (cases "scan_once n cs")
    case None
    with s show ?thesis by (simp add: JSONArray.simps(2))
  next
    case (Some p)
    obtain x y where p: "p = (x, y)" by (cases p)
    from scan_once_shorter [OF Some [unfolded p]] have ly: "length y < length cs" .
    show ?thesis
    proof (cases "skip_ws y")
      case Nil
      with s Some p show ?thesis by (simp add: JSONArray.simps(2))
    next
      case w: (Cons d r')
      show ?thesis
      proof (cases "d \<noteq> CHR '']'' \<and> d = CHR '',''")
        case True
        from skip_ws_Cons_length [OF w] skip_ws_length [of r'] ly "4.prems"
        have "2 * length (skip_ws r') + 2 \<le> n" by simp
        from "4.IH"(2) [OF Some p [symmetric] w _ _ this] True
        have "JSONArray (Suc n) (skip_ws r') = JSONArray n (skip_ws r')" by simp
        with s Some p w True show ?thesis by (simp add: JSONArray.simps(2))
      next
        case False
        with s Some p w show ?thesis by (auto simp: JSONArray.simps(2))
      qed
    qed
  qed
next
  case (5 cs)
  then show ?case by simp
next
  case (6 n cs)
  show ?case
  proof (cases "scanstring cs")
    case None
    then show ?thesis by (simp add: JSONObject.simps(2))
  next
    case (Some p)
    obtain k y where p: "p = (k, y)" by (cases p)
    from scanstring_shorter [OF Some [unfolded p]] have ly: "length y < length cs" .
    show ?thesis
    proof (cases "skip_ws y")
      case Nil
      with Some p show ?thesis by (simp add: JSONObject.simps(2))
    next
      case w1: (Cons d r1)
      show ?thesis
      proof (cases "d = CHR '':''")
        case False
        with Some p w1 show ?thesis by (simp add: JSONObject.simps(2))
      next
        case colon: True
        then have nn: "\<not> d \<noteq> CHR '':''" by simp
        from skip_ws_Cons_length [OF w1] skip_ws_length [of r1] ly "6.prems"
        have l1: "2 * length (skip_ws r1) + 1 \<le> n" by simp
        from "6.IH"(1) [OF Some p [symmetric] w1 nn l1]
        have s: "scan_once (Suc n) (skip_ws r1) = scan_once n (skip_ws r1)" .
        show ?thesis
        proof (cases "scan_once n (skip_ws r1)")
          case None
          with Some p w1 colon s show ?thesis by (simp add: JSONObject.simps(2))
        next
          case v: (Some p2)
          obtain x r2 where p2: "p2 = (x, r2)" by (cases p2)
          from scan_once_shorter [OF v [unfolded p2]] have l2: "length r2 < length (skip_ws r1)" .
          show ?thesis
          proof (cases "skip_ws r2")
            case Nil
            with Some p w1 colon s v p2 show ?thesis by (simp add: JSONObject.simps(2))
          next
            case w3: (Cons e r3)
            show ?thesis
            proof (cases "e \<noteq> CHR ''}'' \<and> e = CHR '',''")
              case False
              with Some p w1 colon s v p2 w3 show ?thesis by (auto simp: JSONObject.simps(2))
            next
              case comma: True
              show ?thesis
              proof (cases "skip_ws r3")
                case Nil
                with Some p w1 colon s v p2 w3 comma show ?thesis
                  by (simp add: JSONObject.simps(2))
              next
                case w4: (Cons q r4)
                show ?thesis
                proof (cases "q = CHR 0x22")
                  case False
                  with Some p w1 colon s v p2 w3 comma w4 show ?thesis
                    by (simp add: JSONObject.simps(2))
                next
                  case True
                  from skip_ws_Cons_length [OF w4] skip_ws_Cons_length [OF w3] l2 l1
                  have "2 * length r4 + 1 \<le> n" by simp
                  from "6.IH"(2) [OF Some p [symmetric] w1 nn v p2 [symmetric] w3 _ _ w4 True this]
                    comma
                  have "JSONObject (Suc n) r4 = JSONObject n r4" by simp
                  with Some p w1 colon s v p2 w3 comma w4 True show ?thesis
                    by (simp add: JSONObject.simps(2))
                qed
              qed
            qed
          qed
        qed
      qed
    qed
  qed
qed

lemma scan_once_fuel:
  "2 * length cs + 1 \<le> n \<Longrightarrow> scan_once (n + k) cs = scan_once n cs"
proof (induction k)
  case 0
  show ?case by simp
next
  case (Suc k)
  from Suc.prems have "2 * length cs + 1 \<le> n + k" by simp
  from scan_once_fuel_step [OF this] Suc.IH [OF Suc.prems] show ?case by simp
qed

lemma json_loads_fuel:
  assumes "2 * length s < n"
  shows "json_loads s =
     (case scan_once n (skip_ws s) of
        None \<Rightarrow> None
      | Some (v, r) \<Rightarrow> if skip_ws r = [] then Some v else None)"
proof -
  let ?m = "Suc (2 * length s)"
  from assms obtain k where n: "n = ?m + k"
    using less_iff_Suc_add [of "2 * length s" n] by auto
  have "2 * length (skip_ws s) + 1 \<le> ?m"
    using skip_ws_length [of s] by simp
  from scan_once_fuel [OF this, of k] n
  have "scan_once n (skip_ws s) = scan_once ?m (skip_ws s)" by simp
  then show ?thesis by (simp add: json_loads_def)
qed

subsection \<open>One line per object\<close>

text \<open>\<^verbatim>\<open>json.dumps\<close> writes printable ASCII only, so encoding the text as UTF-8 changes
  nothing and the line feed that ends the line is the only one in it.\<close>

lemma hexdigit_printable: "d < 16 \<Longrightarrow> printable (hexdigit d)"
  by (auto simp: printable_def hexdigit_def of_char_of)

lemma escape_char_printable: "list_all printable (escape_char c)"
proof -
  have h: "printable (hexdigit (of_char c div 4096 mod 16))"
    "printable (hexdigit (of_char c div 256 mod 16))"
    "printable (hexdigit (of_char c div 16 mod 16))"
    "printable (hexdigit (of_char c mod 16))"
    by (rule hexdigit_printable, simp)+
  have p: "printable (CHR 0x5C)" "printable (CHR 0x22)" "printable CHR ''n''" "printable CHR ''r''"
    "printable CHR ''t''" "printable CHR ''b''" "printable CHR ''f''" "printable CHR ''u''"
    by (simp_all add: printable_def)
  show ?thesis
    unfolding escape_char_def Let_def using h p
    by (simp add: printable_def [of c])
qed

lemma encode_printable: "list_all printable (encode_basestring_ascii s)"
proof -
  have "list_all printable (concat (map escape_char s))"
    by (induction s) (simp_all add: escape_char_printable)
  then show ?thesis
    by (simp add: encode_basestring_ascii_def printable_def)
qed

lemma digit_printable: "is_digit c \<Longrightarrow> printable c"
  by (simp add: is_digit_def printable_def)

lemma int_repr_printable: "list_all printable (int_repr i)"
proof -
  have "\<And>n. list_all printable (decimal n)"
    using decimal_digits digit_printable by (simp add: list_all_iff)
  then show ?thesis by (simp add: int_repr_def printable_def)
qed

lemma printable_punctuation:
  "printable CHR ''[''" "printable CHR '']''" "printable CHR ''{''" "printable CHR ''}''"
  "printable CHR '',''" "printable CHR '' ''" "printable CHR '':''"
  "list_all printable ''null''" "list_all printable ''true''" "list_all printable ''false''"
  by (simp_all add: printable_def)

lemma json_dumps_printable:
    "list_all printable (json_dumps v)"
  and dumps_list_printable: "list_all printable (dumps_list xs)"
  and dumps_dict_printable: "list_all printable (dumps_dict kvs)"
proof (induction v and xs and kvs rule: json_dumps_dumps_list_dumps_dict.induct)
  case 1
  show ?case using printable_punctuation by simp
next
  case (2 b)
  show ?case using printable_punctuation by simp
next
  case (3 i)
  show ?case by (simp add: int_repr_printable)
next
  case (4 s)
  show ?case by (simp add: encode_printable)
next
  case (5 xs)
  then show ?case using printable_punctuation by simp
next
  case (6 kvs)
  then show ?case using printable_punctuation by simp
next
  case 7
  show ?case by simp
next
  case (8 x xs)
  then show ?case using printable_punctuation by simp
next
  case 9
  show ?case by simp
next
  case (10 k v kvs)
  then show ?case using printable_punctuation encode_printable [of k] by simp
qed

lemma json_dumps_one_line: "CHR 0x0A \<notin> set (json_dumps v)"
proof
  assume "CHR 0x0A \<in> set (json_dumps v)"
  with json_dumps_printable [of v] have "printable (CHR 0x0A)"
    by (simp add: list_all_iff)
  then show False by (simp add: printable_def)
qed

section \<open>Resource paths and the cache as a dictionary\<close>

text \<open>\<^verbatim>\<open>s[s.rfind('/') + 1:]\<close> is the text after the last slash, and all of \<open>s\<close> when it has
  none.\<close>

lemma rfind_lower: "- 1 \<le> rfind s c"
  by (induction s) (auto simp: Let_def)

lemma rfind_absent: "(rfind s c = - 1) = (c \<notin> set s)"
proof (induction s)
  case Nil
  show ?case by simp
next
  case (Cons x xs)
  from rfind_lower [of xs c] have "rfind xs c + 1 \<noteq> - 1" by simp
  with Cons show ?case by (auto simp: Let_def)
qed

lemma last_segment_Cons:
  "last_segment (x # xs) =
     (if CHR ''/'' \<in> set xs then last_segment xs else if x = CHR ''/'' then xs else x # xs)"
proof (cases "CHR ''/'' \<in> set xs")
  case True
  then have "rfind xs CHR ''/'' \<noteq> - 1" by (simp add: rfind_absent)
  with rfind_lower [of xs "CHR ''/''"] have "0 \<le> rfind xs CHR ''/''" by simp
  with True show ?thesis
    by (simp add: last_segment_def Let_def rfind_absent nat_add_distrib)
next
  case False
  then show ?thesis by (simp add: last_segment_def Let_def rfind_absent)
qed

lemma last_segment_no_slash: "CHR ''/'' \<notin> set s \<Longrightarrow> last_segment s = s"
  by (simp add: last_segment_def rfind_absent [THEN iffD2])

lemma last_segment_after_slash:
  "CHR ''/'' \<notin> set t \<Longrightarrow> last_segment (p @ CHR ''/'' # t) = t"
  by (induction p) (simp_all add: last_segment_Cons)


text \<open>The device cache never holds a key twice: it starts empty, \<^verbatim>\<open>_load_devices\<close> stores
  by key and \<^verbatim>\<open>_handle_response\<close> keeps the keys.\<close>

lemma write_object_devices: "devices (snd (write_object s obj)) = devices s"
  using write_object_wire [of s obj] by (auto simp: )

lemma read_object_devices: "devices (snd (read_object s)) = devices s"
  by (auto simp: read_object_def Let_def split: option.splits prod.splits sum.splits)

lemma store_devices_distinct:
  "distinct (map fst (devices s)) \<Longrightarrow> distinct (map fst (devices (snd (store_devices js s))))"
  by (induction js arbitrary: s) (auto simp: distinct_update split: sum.splits)

lemma store_scenes_devices: "devices (snd (store_scenes js s)) = devices s"
  by (induction js arbitrary: s) (auto split: sum.splits option.splits)

lemma request_status_devices: "devices (snd (request_status ds s)) = devices s"
  using request_status_wire [of ds s] by auto

lemma load_devices_distinct:
  assumes "distinct (map fst (devices s))"
  shows "distinct (map fst (devices (snd (load_devices s))))"
proof -
  let ?req = "JObj [(''CommuniqueType'', JStr ''ReadRequest''),
                    (''Header'', JObj [(''Url'', JStr ''/device'')])]"
  obtain r1 s1 where w: "write_object s ?req = (r1, s1)" by (cases "write_object s ?req")
  obtain r2 s2 where r: "read_object s1 = (r2, s2)" by (cases "read_object s1")
  from w write_object_devices [of s ?req] have d1: "devices s1 = devices s" by simp
  from r read_object_devices [of s1] d1 have d2: "devices s2 = devices s" by simp
  from assms d2 have "\<And>js. distinct (map fst (devices (snd (store_devices js s2))))"
    by (simp add: store_devices_distinct)
  with assms d1 d2 w r show ?thesis
    by (auto simp: load_devices_def split: sum.splits)
qed

lemma load_scenes_devices: "devices (snd (load_scenes s)) = devices s"
proof -
  let ?req = "JObj [(''CommuniqueType'', JStr ''ReadRequest''),
                    (''Header'', JObj [(''Url'', JStr ''/virtualbutton'')])]"
  obtain r1 s1 where w: "write_object s ?req = (r1, s1)" by (cases "write_object s ?req")
  obtain r2 s2 where r: "read_object s1 = (r2, s2)" by (cases "read_object s1")
  from w write_object_devices [of s ?req] have d1: "devices s1 = devices s" by simp
  from r read_object_devices [of s1] d1 have d2: "devices s2 = devices s" by simp
  from d1 d2 w r store_scenes_devices show ?thesis
    by (auto simp: load_scenes_def split: sum.splits)
qed

lemma login_distinct:
  assumes "distinct (map fst (devices s))"
  shows "distinct (map fst (devices (snd (login net s))))"
proof (cases "case reader s of None \<Rightarrow> False | Some r \<Rightarrow> exception r = None \<and> \<not> at_eof r")
  case True
  with assms show ?thesis by (simp add: login_def)
next
  case False
  define s1 where "s1 = (case reader s of None \<Rightarrow> s
                   | Some r \<Rightarrow> s\<lparr>reader := None, wire := wire s @ [Closed]\<rparr>)"
  define s2 where "s2 = s1\<lparr>logged_in := False, wire := wire s1 @ [Open (hostname s1) LEAP_PORT]\<rparr>"
  have d2: "devices s2 = devices s"
    by (simp add: s2_def s1_def split: option.splits)
  show ?thesis
  proof (cases "net (hostname s2) LEAP_PORT")
    case (Inl e)
    with False assms d2 show ?thesis
      unfolding login_def s1_def [symmetric] Let_def s2_def [symmetric] by simp
  next
    case (Inr r)
    obtain r3 s3 where l3: "load_devices (s2\<lparr>reader := Some r\<rparr>) = (r3, s3)"
      by (cases "load_devices (s2\<lparr>reader := Some r\<rparr>)")
    obtain r4 s4 where l4: "load_scenes s3 = (r4, s4)" by (cases "load_scenes s3")
    obtain r5 s5 where l5: "request_status (devices s4) s4 = (r5, s5)"
      by (cases "request_status (devices s4) s4")
    from assms d2 load_devices_distinct [of "s2\<lparr>reader := Some r\<rparr>"] l3
    have d3: "distinct (map fst (devices s3))" by simp
    from l4 load_scenes_devices [of s3] have d4: "devices s4 = devices s3" by simp
    from l5 request_status_devices [of "devices s4" s4] have d5: "devices s5 = devices s4" by simp
    from False Inr l3 l4 l5 d3 d4 d5 show ?thesis
      unfolding login_def s1_def [symmetric] Let_def s2_def [symmetric]
      by (auto split: sum.splits)
  qed
qed

lemma init_distinct: "distinct (map fst (devices (snd (init net host p))))"
  unfolding init_def by (rule login_distinct) simp

lemma handle_response_distinct:
  assumes "distinct (map fst (devices s))"
  shows "distinct (map fst (devices (snd (handle_response s msg))))"
proof -
  obtain res s' where h: "handle_response s msg = (res, s')" by (cases "handle_response s msg")
  from handle_response_cases [OF h] assms have "distinct (map fst (devices s'))"
    by (auto simp: update_zone_keys)
  with h show ?thesis by simp
qed

section \<open>The port attribute\<close>

text \<open>Nothing reads \<^verbatim>\<open>self._port\<close>: a session with another value of the attribute logs in
  the same way, to the same port, with the same result.\<close>

lemma write_object_port: "write_object (s\<lparr>port := p\<rparr>) obj = with_port p (write_object s obj)"
  by (simp add: write_object_def with_port_def Let_def split: option.splits)

lemma read_object_port: "read_object (s\<lparr>port := p\<rparr>) = with_port p (read_object s)"
  by (simp add: read_object_def with_port_def Let_def split: option.splits prod.splits sum.splits)

lemma store_devices_port:
  "store_devices js (s\<lparr>port := p\<rparr>) = with_port p (store_devices js s)"
proof (induction js arbitrary: s)
  case Nil
  show ?case by (simp add: with_port_def)
next
  case (Cons j js)
  show ?case
  proof (cases "read_device j")
    case (Inl e)
    then show ?thesis by (simp add: with_port_def)
  next
    case (Inr d)
    define s' where "s' = s\<lparr>devices := AList.update (device_id d) d (devices s)\<rparr>"
    have e: "(s\<lparr>port := p\<rparr>)\<lparr>devices :=
        AList.update (device_id d) d (devices (s\<lparr>port := p\<rparr>))\<rparr> = s'\<lparr>port := p\<rparr>"
      by (simp add: s'_def)
    have "store_devices (j # js) (s\<lparr>port := p\<rparr>) = store_devices js (s'\<lparr>port := p\<rparr>)"
      by (simp only: store_devices.simps Inr sum.case e)
    also have "\<dots> = with_port p (store_devices js s')"
      by (rule Cons.IH)
    also have "\<dots> = with_port p (store_devices (j # js) s)"
      by (simp only: store_devices.simps Inr sum.case s'_def)
    finally show ?thesis .
  qed
qed

lemma store_scenes_port:
  "store_scenes js (s\<lparr>port := p\<rparr>) = with_port p (store_scenes js s)"
proof (induction js arbitrary: s)
  case Nil
  show ?case by (simp add: with_port_def)
next
  case (Cons j js)
  show ?case
  proof (cases "read_scene j")
    case (Inl e)
    then show ?thesis by (simp add: with_port_def)
  next
    case (Inr opt)
    show ?thesis
    proof (cases opt)
      case None
      with Inr Cons.IH [of s] show ?thesis by simp
    next
      case (Some x)
      define s' where "s' = s\<lparr>scenes := AList.update (scene_id x) x (scenes s)\<rparr>"
      have e: "(s\<lparr>port := p\<rparr>)\<lparr>scenes :=
          AList.update (scene_id x) x (scenes (s\<lparr>port := p\<rparr>))\<rparr> = s'\<lparr>port := p\<rparr>"
        by (simp add: s'_def)
      have "store_scenes (j # js) (s\<lparr>port := p\<rparr>) = store_scenes js (s'\<lparr>port := p\<rparr>)"
        by (simp only: store_scenes.simps Inr Some sum.case option.case e)
      also have "\<dots> = with_port p (store_scenes js s')"
        by (rule Cons.IH)
      also have "\<dots> = with_port p (store_scenes (j # js) s)"
        by (simp only: store_scenes.simps Inr Some sum.case option.case s'_def)
      finally show ?thesis .
    qed
  qed
qed

lemma request_status_port:
  "request_status ds (s\<lparr>port := p\<rparr>) = with_port p (request_status ds s)"
proof (induction ds arbitrary: s)
  case Nil
  show ?case by (simp add: with_port_def)
next
  case (Cons a ds)
  obtain k d where a: "a = (k, d)" by (cases a)
  show ?case
  proof (cases "zone d")
    case None
    with a Cons.IH [of s] show ?thesis by simp
  next
    case (Some z)
    obtain r s1 where w: "write_object s (zone_status_request z) = (r, s1)"
      by (cases "write_object s (zone_status_request z)")
    then have w': "write_object (s\<lparr>port := p\<rparr>) (zone_status_request z) = (r, s1\<lparr>port := p\<rparr>)"
      by (simp add: write_object_port with_port_def)
    show ?thesis
    proof (cases r)
      case (Inl e)
      with a Some w w' show ?thesis by (simp add: with_port_def)
    next
      case (Inr u)
      with a Some w w' Cons.IH [of s1] show ?thesis by simp
    qed
  qed
qed

lemma load_devices_port: "load_devices (s\<lparr>port := p\<rparr>) = with_port p (load_devices s)"
proof -
  let ?req = "JObj [(''CommuniqueType'', JStr ''ReadRequest''),
                    (''Header'', JObj [(''Url'', JStr ''/device'')])]"
  obtain r1 s1 where w: "write_object s ?req = (r1, s1)" by (cases "write_object s ?req")
  then have w': "write_object (s\<lparr>port := p\<rparr>) ?req = (r1, s1\<lparr>port := p\<rparr>)"
    by (simp add: write_object_port with_port_def)
  obtain r2 s2 where r: "read_object s1 = (r2, s2)" by (cases "read_object s1")
  then have r': "read_object (s1\<lparr>port := p\<rparr>) = (r2, s2\<lparr>port := p\<rparr>)"
    by (simp add: read_object_port with_port_def)
  show ?thesis
    unfolding load_devices_def w w' 
    by (simp add: r r' store_devices_port with_port_def split: sum.splits)
qed

lemma load_scenes_port: "load_scenes (s\<lparr>port := p\<rparr>) = with_port p (load_scenes s)"
proof -
  let ?req = "JObj [(''CommuniqueType'', JStr ''ReadRequest''),
                    (''Header'', JObj [(''Url'', JStr ''/virtualbutton'')])]"
  obtain r1 s1 where w: "write_object s ?req = (r1, s1)" by (cases "write_object s ?req")
  then have w': "write_object (s\<lparr>port := p\<rparr>) ?req = (r1, s1\<lparr>port := p\<rparr>)"
    by (simp add: write_object_port with_port_def)
  obtain r2 s2 where r: "read_object s1 = (r2, s2)" by (cases "read_object s1")
  then have r': "read_object (s1\<lparr>port := p\<rparr>) = (r2, s2\<lparr>port := p\<rparr>)"
    by (simp add: read_object_port with_port_def)
  show ?thesis
    unfolding load_scenes_def w w' 
    by (simp add: r r' store_scenes_port with_port_def split: sum.splits)
qed

lemma login_port: "login net (s\<lparr>port := p\<rparr>) = with_port p (login net s)"
proof (cases "case reader s of None \<Rightarrow> False | Some r \<Rightarrow> exception r = None \<and> \<not> at_eof r")
  case True
  then show ?thesis by (simp add: login_def with_port_def)
next
  case False
  define s1 where "s1 = (case reader s of None \<Rightarrow> s
                   | Some r \<Rightarrow> s\<lparr>reader := None, wire := wire s @ [Closed]\<rparr>)"
  define s2 where "s2 = s1\<lparr>logged_in := False, wire := wire s1 @ [Open (hostname s1) LEAP_PORT]\<rparr>"
  define t1 where "t1 = (case reader (s\<lparr>port := p\<rparr>) of None \<Rightarrow> s\<lparr>port := p\<rparr>
                   | Some r \<Rightarrow> s\<lparr>port := p, reader := None, wire := wire (s\<lparr>port := p\<rparr>) @ [Closed]\<rparr>)"
  define t2 where "t2 = t1\<lparr>logged_in := False, wire := wire t1 @ [Open (hostname t1) LEAP_PORT]\<rparr>"
  have t: "t2 = s2\<lparr>port := p\<rparr>" "hostname t2 = hostname s2"
    by (simp_all add: t2_def t1_def s2_def s1_def split: option.splits)
  have ls: "login net s = (case net (hostname s2) LEAP_PORT of
              Inl e \<Rightarrow> (Inl e, s2)
            | Inr r \<Rightarrow>
           (case load_devices (s2\<lparr>reader := Some r\<rparr>) of
              (Inl e, s3) \<Rightarrow> (Inl e, s3)
            | (Inr u, s3) \<Rightarrow>
           (case load_scenes s3 of
              (Inl e, s4) \<Rightarrow> (Inl e, s4)
            | (Inr u, s4) \<Rightarrow>
           (case request_status (devices s4) s4 of
              (Inl e, s5) \<Rightarrow> (Inl e, s5)
            | (Inr u, s5) \<Rightarrow> (Inr (), s5\<lparr>logged_in := True\<rparr>)))))"
    using False unfolding login_def s1_def s2_def Let_def by simp
  have lt: "login net (s\<lparr>port := p\<rparr>) = (case net (hostname t2) LEAP_PORT of
              Inl e \<Rightarrow> (Inl e, t2)
            | Inr r \<Rightarrow>
           (case load_devices (t2\<lparr>reader := Some r\<rparr>) of
              (Inl e, s3) \<Rightarrow> (Inl e, s3)
            | (Inr u, s3) \<Rightarrow>
           (case load_scenes s3 of
              (Inl e, s4) \<Rightarrow> (Inl e, s4)
            | (Inr u, s4) \<Rightarrow>
           (case request_status (devices s4) s4 of
              (Inl e, s5) \<Rightarrow> (Inl e, s5)
            | (Inr u, s5) \<Rightarrow> (Inr (), s5\<lparr>logged_in := True\<rparr>)))))"
    using False unfolding login_def t1_def t2_def Let_def by simp
  show ?thesis
  proof (cases "net (hostname s2) LEAP_PORT")
    case (Inl e)
    with ls lt t show ?thesis by (simp add: with_port_def)
  next
    case (Inr r)
    obtain r3 s3 where l3: "load_devices (s2\<lparr>reader := Some r\<rparr>) = (r3, s3)"
      by (cases "load_devices (s2\<lparr>reader := Some r\<rparr>)")
    have e: "t2\<lparr>reader := Some r\<rparr> = (s2\<lparr>reader := Some r\<rparr>)\<lparr>port := p\<rparr>"
      by (simp add: t)
    have l3': "load_devices (t2\<lparr>reader := Some r\<rparr>) = (r3, s3\<lparr>port := p\<rparr>)"
      by (simp only: e load_devices_port with_port_def l3 fst_conv snd_conv)
    obtain r4 s4 where l4: "load_scenes s3 = (r4, s4)" by (cases "load_scenes s3")
    then have l4': "load_scenes (s3\<lparr>port := p\<rparr>) = (r4, s4\<lparr>port := p\<rparr>)"
      by (simp add: load_scenes_port with_port_def)
    obtain r5 s5 where l5: "request_status (devices s4) s4 = (r5, s5)"
      by (cases "request_status (devices s4) s4")
    then have l5': "request_status (devices s4) (s4\<lparr>port := p\<rparr>) = (r5, s5\<lparr>port := p\<rparr>)"
      by (simp add: request_status_port with_port_def)
    from ls lt t Inr l3 l3' l4 l4' l5 l5' show ?thesis
      by (simp add: with_port_def split: sum.splits)
  qed
qed

lemma init_port:
  "init net host p = with_port p (init net host q)"
proof -
  let ?s = "\<lparr>devices = [], scenes = [], logged_in = False, subscribers = [],
        hostname = host, port = q, reader = None, wire = [], called = []\<rparr>"
  have "init net host p = login net (?s\<lparr>port := p\<rparr>)"
    by (simp add: init_def)
  also have "\<dots> = with_port p (login net ?s)"
    by (rule login_port)
  finally show ?thesis by (simp add: init_def)
qed

end
